theory Spec2Isabelle
  imports Main
begin

section \<open>The restaurant: groups, receptionist and waiter over shared memory\<close>

text \<open>
  The three programs (\<^verbatim>\<open>semSharedMemGroup.c\<close>, \<^verbatim>\<open>semSharedMemReceptionist.c\<close>,
  \<^verbatim>\<open>semSharedMemWaiter.c\<close>) share one memory region \<^verbatim>\<open>sh\<close> and one semaphore set.
  Each C function is embedded as a function from the world before the call to an
  outcome: the call returns, or it stops at a \<^verbatim>\<open>semDown\<close> on a semaphore whose value
  is zero (it cannot go on until another process raises that semaphore), or it indexes
  an array out of range, or its loop is still running when the passes allowed to it are
  used up.  Every access to a field of \<^verbatim>\<open>sh->fSt\<close> and every semaphore
  operation is recorded in a trace, so that the order of accesses and of the
  acquire/release of the mutex can be read back.

  C \<^verbatim>\<open>int\<close> values are modelled as unbounded integers: the only arithmetic of the
  code is the increment of counters that stay far below the range of \<^verbatim>\<open>int\<close>.
\<close>

subsection \<open>Constants of \<^verbatim>\<open>probConst.h\<close>\<close>

text \<open>
  The header \<^verbatim>\<open>probConst.h\<close> is not among the source files.  The constants the three
  programs take from it are parameters of the model.
\<close>

record probConst =
  NUMTABLES :: nat
  MAXGROUPS :: nat
  ATRECEPTION :: int
  FOOD_REQUEST :: int
  WAIT_FOR_FOOD :: int
  EAT :: int
  CHECKOUT :: int
  LEAVING :: int
  WAIT_FOR_REQUEST :: int
  INFORM_CHEF :: int
  TAKE_TO_TABLE :: int
  ASSIGNTABLE :: int
  RECVPAY :: int
  TABLEREQ :: int
  BILLREQ :: int
  FOODREQ :: int
  FOODREADY :: int

text \<open>The constants the source files define themselves.\<close>

definition CHECKING_IN :: int where "CHECKING_IN = 0"
definition AT_TABLE :: int where "AT_TABLE = 1"
definition WAITING :: int where "WAITING = 2"

text \<open>The receptionist's constants for \<^verbatim>\<open>groupRecord\<close>.\<close>

definition TOARRIVE :: int where "TOARRIVE = 0"
definition WAIT :: int where "WAIT = 1"
definition ATTABLE :: int where "ATTABLE = 2"
definition DONE :: int where "DONE = 3"

subsection \<open>The shared region, the semaphore set and the world\<close>

text \<open>
  Modelled from the spec: the structures \<^verbatim>\<open>request\<close>, \<^verbatim>\<open>STAT\<close> and \<^verbatim>\<open>FULL_STAT\<close> of
  \<^verbatim>\<open>probDataStruct.h\<close> and \<^verbatim>\<open>SHARED_DATA\<close> of \<^verbatim>\<open>sharedDataSync.h\<close>, which are not among
  the source files.  The records have the fields that the three programs access, under
  the names the programs use; the fields of the spec's data model are among them.  An
  array is a list, and its length is the length of the list: no declared length is
  assumed.
\<close>

record request =
  reqType :: int
  reqGroup :: int

record STAT =
  groupStat :: "int list"
  receptionistStat :: int
  waiterStat :: int
  chefStat :: int

record FULL_STAT =
  st :: STAT
  startTime :: "int list"
  eatTime :: "int list"
  groupsWaiting :: int
  receptionistRequest :: request
  waiterRequest :: request
  foodGroup :: int
  assignedTable :: "int list"

text \<open>
  The semaphores of the set, each named by the field of \<^verbatim>\<open>sh\<close> that holds its
  identifier; a field that is an array of identifiers is a list of semaphore values.
  The identifiers are taken to be pairwise distinct.
\<close>

record semset =
  mutex :: nat
  waitForTable :: "nat list"
  tableDone :: "nat list"
  foodArrived :: "nat list"
  waiterRequestPossible :: nat
  waitOrder :: nat
  orderReceived :: nat

datatype sem =
  Mutex
  | WaitForTable int
  | TableDone int
  | FoodArrived int
  | WaiterRequestPossible
  | WaitOrder
  | OrderReceived

datatype field =
  GroupStat int
  | ReceptionistStat
  | WaiterStat
  | ChefStat
  | GroupsWaiting
  | ReceptionistRequestType
  | ReceptionistRequestGroup
  | WaiterRequestType
  | WaiterRequestGroup
  | FoodGroup
  | AssignedTable int
  | StartTime int
  | EatTime int

datatype event = Down sem | Up sem | Rd field | Wr field | SaveState

text \<open>
  The world: the shared region, the semaphore values, the receptionist's private
  array \<^verbatim>\<open>groupRecord\<close>, and the trace of what has been done so far.
\<close>

record world =
  fSt :: FULL_STAT
  sems :: semset
  groupRecord :: "int list"
  trace :: "event list"

datatype 'a outcome =
  Returns 'a world
  | Blocked sem world
  | OutOfBounds world
  | OutOfFuel world

fun state_of :: "'a outcome \<Rightarrow> world" where
  "state_of (Returns x w) = w"
| "state_of (Blocked s w) = w"
| "state_of (OutOfBounds w) = w"
| "state_of (OutOfFuel w) = w"

type_synonym 'a act = "world \<Rightarrow> 'a outcome"

definition ret :: "'a \<Rightarrow> 'a act" where
  "ret x w = Returns x w"

definition bnd :: "'a act \<Rightarrow> ('a \<Rightarrow> 'b act) \<Rightarrow> 'b act" where
  "bnd m k w =
     (case m w of
        Returns x w' \<Rightarrow> k x w'
      | Blocked s w' \<Rightarrow> Blocked s w'
      | OutOfBounds w' \<Rightarrow> OutOfBounds w'
      | OutOfFuel w' \<Rightarrow> OutOfFuel w')"

definition thn :: "'a act \<Rightarrow> 'b act \<Rightarrow> 'b act" where
  "thn m k = bnd m (\<lambda>_. k)"

fun seq :: "unit act list \<Rightarrow> unit act" where
  "seq [] = ret ()"
| "seq (m # ms) = thn m (seq ms)"

subsection \<open>Arrays\<close>

text \<open>An index outside the array is undefined behaviour in C; the model stops there.\<close>

definition idx :: "'a list \<Rightarrow> int \<Rightarrow> 'a option" where
  "idx xs i = (if 0 \<le> i \<and> i < int (length xs) then Some (xs ! nat i) else None)"

definition upd :: "'a list \<Rightarrow> int \<Rightarrow> 'a \<Rightarrow> 'a list option" where
  "upd xs i v = (if 0 \<le> i \<and> i < int (length xs) then Some (xs[nat i := v]) else None)"

fun load :: "field \<Rightarrow> FULL_STAT \<Rightarrow> int option" where
  "load (GroupStat i) s = idx (groupStat (st s)) i"
| "load ReceptionistStat s = Some (receptionistStat (st s))"
| "load WaiterStat s = Some (waiterStat (st s))"
| "load ChefStat s = Some (chefStat (st s))"
| "load GroupsWaiting s = Some (groupsWaiting s)"
| "load ReceptionistRequestType s = Some (reqType (receptionistRequest s))"
| "load ReceptionistRequestGroup s = Some (reqGroup (receptionistRequest s))"
| "load WaiterRequestType s = Some (reqType (waiterRequest s))"
| "load WaiterRequestGroup s = Some (reqGroup (waiterRequest s))"
| "load FoodGroup s = Some (foodGroup s)"
| "load (AssignedTable i) s = idx (assignedTable s) i"
| "load (StartTime i) s = idx (startTime s) i"
| "load (EatTime i) s = idx (eatTime s) i"

fun store :: "field \<Rightarrow> int \<Rightarrow> FULL_STAT \<Rightarrow> FULL_STAT option" where
  "store (GroupStat i) v s =
     (case upd (groupStat (st s)) i v of
        None \<Rightarrow> None
      | Some xs \<Rightarrow> Some (s\<lparr>st := (st s)\<lparr>groupStat := xs\<rparr>\<rparr>))"
| "store ReceptionistStat v s = Some (s\<lparr>st := (st s)\<lparr>receptionistStat := v\<rparr>\<rparr>)"
| "store WaiterStat v s = Some (s\<lparr>st := (st s)\<lparr>waiterStat := v\<rparr>\<rparr>)"
| "store ChefStat v s = Some (s\<lparr>st := (st s)\<lparr>chefStat := v\<rparr>\<rparr>)"
| "store GroupsWaiting v s = Some (s\<lparr>groupsWaiting := v\<rparr>)"
| "store ReceptionistRequestType v s =
     Some (s\<lparr>receptionistRequest := (receptionistRequest s)\<lparr>reqType := v\<rparr>\<rparr>)"
| "store ReceptionistRequestGroup v s =
     Some (s\<lparr>receptionistRequest := (receptionistRequest s)\<lparr>reqGroup := v\<rparr>\<rparr>)"
| "store WaiterRequestType v s =
     Some (s\<lparr>waiterRequest := (waiterRequest s)\<lparr>reqType := v\<rparr>\<rparr>)"
| "store WaiterRequestGroup v s =
     Some (s\<lparr>waiterRequest := (waiterRequest s)\<lparr>reqGroup := v\<rparr>\<rparr>)"
| "store FoodGroup v s = Some (s\<lparr>foodGroup := v\<rparr>)"
| "store (AssignedTable i) v s =
     (case upd (assignedTable s) i v of
        None \<Rightarrow> None
      | Some xs \<Rightarrow> Some (s\<lparr>assignedTable := xs\<rparr>))"
| "store (StartTime i) v s =
     (case upd (startTime s) i v of
        None \<Rightarrow> None
      | Some xs \<Rightarrow> Some (s\<lparr>startTime := xs\<rparr>))"
| "store (EatTime i) v s =
     (case upd (eatTime s) i v of
        None \<Rightarrow> None
      | Some xs \<Rightarrow> Some (s\<lparr>eatTime := xs\<rparr>))"

text \<open>Reading and writing a field of \<^verbatim>\<open>sh->fSt\<close>.\<close>

definition rd :: "field \<Rightarrow> int act" where
  "rd f w =
     (case load f (fSt w) of
        None \<Rightarrow> OutOfBounds w
      | Some v \<Rightarrow> Returns v (w\<lparr>trace := trace w @ [Rd f]\<rparr>))"

definition wr :: "field \<Rightarrow> int \<Rightarrow> unit act" where
  "wr f v w =
     (case store f v (fSt w) of
        None \<Rightarrow> OutOfBounds w
      | Some s \<Rightarrow> Returns () (w\<lparr>fSt := s, trace := trace w @ [Wr f]\<rparr>))"

text \<open>Reading and writing the receptionist's own \<^verbatim>\<open>groupRecord\<close> (not shared).\<close>

definition rdRec :: "int \<Rightarrow> int act" where
  "rdRec i w =
     (case idx (groupRecord w) i of
        None \<Rightarrow> OutOfBounds w
      | Some v \<Rightarrow> Returns v w)"

definition wrRec :: "int \<Rightarrow> int \<Rightarrow> unit act" where
  "wrRec i v w =
     (case upd (groupRecord w) i v of
        None \<Rightarrow> OutOfBounds w
      | Some xs \<Rightarrow> Returns () (w\<lparr>groupRecord := xs\<rparr>))"

subsection \<open>Semaphores and the state snapshot\<close>

fun semval :: "sem \<Rightarrow> semset \<Rightarrow> nat option" where
  "semval Mutex s = Some (mutex s)"
| "semval (WaitForTable i) s = idx (waitForTable s) i"
| "semval (TableDone i) s = idx (tableDone s) i"
| "semval (FoodArrived i) s = idx (foodArrived s) i"
| "semval WaiterRequestPossible s = Some (waiterRequestPossible s)"
| "semval WaitOrder s = Some (waitOrder s)"
| "semval OrderReceived s = Some (orderReceived s)"

fun semput :: "sem \<Rightarrow> nat \<Rightarrow> semset \<Rightarrow> semset" where
  "semput Mutex v s = s\<lparr>mutex := v\<rparr>"
| "semput (WaitForTable i) v s = s\<lparr>waitForTable := (waitForTable s)[nat i := v]\<rparr>"
| "semput (TableDone i) v s = s\<lparr>tableDone := (tableDone s)[nat i := v]\<rparr>"
| "semput (FoodArrived i) v s = s\<lparr>foodArrived := (foodArrived s)[nat i := v]\<rparr>"
| "semput WaiterRequestPossible v s = s\<lparr>waiterRequestPossible := v\<rparr>"
| "semput WaitOrder v s = s\<lparr>waitOrder := v\<rparr>"
| "semput OrderReceived v s = s\<lparr>orderReceived := v\<rparr>"

text \<open>
  Modelled from the spec: \<^verbatim>\<open>semDown\<close> and \<^verbatim>\<open>semUp\<close> of \<^verbatim>\<open>semaphore.h\<close>, which are
  not among the source files.  A wait is a genuine blocking point: it takes one unit of
  the semaphore, and where the value is zero the caller does not go on.  A signal adds
  one unit.  The failure of the operating-system call, on which every caller exits, is
  not modelled.
\<close>

definition semDown :: "sem \<Rightarrow> unit act" where
  "semDown s w =
     (case semval s (sems w) of
        None \<Rightarrow> OutOfBounds w
      | Some v \<Rightarrow>
          if v = 0 then Blocked s w
          else Returns () (w\<lparr>sems := semput s (v - 1) (sems w), trace := trace w @ [Down s]\<rparr>))"

definition semUp :: "sem \<Rightarrow> unit act" where
  "semUp s w =
     (case semval s (sems w) of
        None \<Rightarrow> OutOfBounds w
      | Some v \<Rightarrow>
          Returns () (w\<lparr>sems := semput s (v + 1) (sems w), trace := trace w @ [Up s]\<rparr>))"

text \<open>
  Modelled from the spec: \<^verbatim>\<open>saveState\<close> of \<^verbatim>\<open>logging.h\<close>, which is not among the source
  files.  It appends a snapshot of the shared state to the log file and changes nothing
  in the shared region; the trace records that the whole state has been read.
\<close>

definition saveState :: "unit act" where
  "saveState w = Returns () (w\<lparr>trace := trace w @ [SaveState]\<rparr>)"

subsection \<open>The receptionist\<close>

text \<open>\<^verbatim>\<open>decideTableOrWait\<close>: the first loop counts the entries equal to 1.\<close>

fun countOccupied :: "nat \<Rightarrow> int \<Rightarrow> int \<Rightarrow> int act" where
  "countOccupied 0 tableId tablesOccupied = ret tablesOccupied"
| "countOccupied (Suc k) tableId tablesOccupied =
     bnd (rd (AssignedTable tableId)) (\<lambda>v.
       countOccupied k (tableId + 1) (if v = 1 then tablesOccupied + 1 else tablesOccupied))"

fun firstVacant :: "nat \<Rightarrow> int \<Rightarrow> int act" where
  "firstVacant 0 tableId = ret (- 1)"
| "firstVacant (Suc k) tableId =
     bnd (rd (AssignedTable tableId)) (\<lambda>v.
       if v = - 1 then ret tableId else firstVacant k (tableId + 1))"

definition decideTableOrWait :: "probConst \<Rightarrow> int \<Rightarrow> int act" where
  "decideTableOrWait c n =
     bnd (countOccupied (NUMTABLES c) 0 0) (\<lambda>tablesOccupied.
       if tablesOccupied = int (NUMTABLES c) then ret (- 1)
       else firstVacant (NUMTABLES c) 0)"

text \<open>\<^verbatim>\<open>decideNextGroup\<close>: the scan of \<^verbatim>\<open>groupRecord\<close> stops at the first \<^verbatim>\<open>WAIT\<close>.\<close>

fun scanWaiting :: "nat \<Rightarrow> int \<Rightarrow> int act" where
  "scanWaiting 0 i = ret (- 1)"
| "scanWaiting (Suc k) i =
     bnd (rdRec i) (\<lambda>v. if v = WAIT then ret i else scanWaiting k (i + 1))"

definition decideNextGroup :: "probConst \<Rightarrow> int act" where
  "decideNextGroup c =
     thn (semDown Mutex)
       (bnd (scanWaiting (MAXGROUPS c) 0) (\<lambda>nextGroup.
          thn (if nextGroup \<noteq> - 1
               then seq [wrRec nextGroup ATTABLE, wr (GroupStat nextGroup) AT_TABLE]
               else ret ())
            (thn (semUp Mutex) (ret nextGroup))))"

definition waitForGroup :: "request act" where
  "waitForGroup =
     thn (seq [semDown Mutex, wr ReceptionistStat WAIT, saveState, semUp Mutex])
       (ret \<lparr>reqType = 0, reqGroup = 0\<rparr>)"

definition provideTableOrWaitingRoom :: "probConst \<Rightarrow> int \<Rightarrow> unit act" where
  "provideTableOrWaitingRoom c n =
     thn (semDown Mutex)
       (bnd (decideTableOrWait c n) (\<lambda>tableId.
          seq [if tableId \<noteq> - 1
               then seq [wr ReceptionistStat (ASSIGNTABLE c), wrRec n ATTABLE,
                         semUp (WaitForTable n)]
               else seq [wr ReceptionistStat WAIT, wrRec n WAIT],
               saveState,
               semUp Mutex]))"

definition receivePayment :: "probConst \<Rightarrow> int \<Rightarrow> unit act" where
  "receivePayment c n =
     thn (semDown Mutex)
       (thn (wr ReceptionistStat (RECVPAY c))
          (bnd (rd (AssignedTable n)) (\<lambda>tableId.
             thn (wr (AssignedTable tableId) (- 1))
               (thn (wrRec n DONE)
                  (bnd (decideNextGroup c) (\<lambda>nextGroup.
                     seq [if nextGroup \<noteq> - 1
                          then seq [wr (AssignedTable tableId) nextGroup,
                                    wrRec nextGroup ATTABLE,
                                    wr (GroupStat nextGroup) AT_TABLE,
                                    semUp (WaitForTable nextGroup)]
                          else ret (),
                          saveState,
                          semUp Mutex]))))))"

subsection \<open>The group\<close>

text \<open>
  \<^verbatim>\<open>goToRestaurant\<close> and \<^verbatim>\<open>eat\<close> read the group's time from the shared region and
  sleep for about that long.  The length of the sleep has no effect on the world.
\<close>

definition goToRestaurant :: "int \<Rightarrow> unit act" where
  "goToRestaurant ident = bnd (rd (StartTime ident)) (\<lambda>t. ret ())"

definition eat :: "int \<Rightarrow> unit act" where
  "eat ident = bnd (rd (EatTime ident)) (\<lambda>t. ret ())"

text \<open>
  The loop of \<^verbatim>\<open>checkInAtReception\<close> over the tables; it returns \<^verbatim>\<open>isTableAvailable\<close>.
  In \<^verbatim>\<open>checkInAtReception\<close> the field \<^verbatim>\<open>groupsWaiting\<close> is read twice: once for the test
  that sets \<^verbatim>\<open>isFirstGroup\<close> (a value the function does nothing with), once for the
  increment.
\<close>

fun takeVacant :: "int \<Rightarrow> nat \<Rightarrow> int \<Rightarrow> bool act" where
  "takeVacant ident 0 i = ret False"
| "takeVacant ident (Suc k) i =
     bnd (rd (AssignedTable i)) (\<lambda>v.
       if v = - 1
       then thn (wr (AssignedTable i) ident) (thn (wr (GroupStat ident) AT_TABLE) (ret True))
       else takeVacant ident k (i + 1))"

definition checkInAtReception :: "probConst \<Rightarrow> int \<Rightarrow> unit act" where
  "checkInAtReception c ident =
     thn (semDown Mutex)
       (bnd (rd GroupsWaiting) (\<lambda>isFirstGroup.
          bnd (rd GroupsWaiting) (\<lambda>g.
            thn (seq [wr GroupsWaiting (g + 1),
                      wr ReceptionistRequestType (TABLEREQ c),
                      wr ReceptionistRequestGroup ident,
                      wr (GroupStat ident) (ATRECEPTION c),
                      saveState])
              (bnd (takeVacant ident (NUMTABLES c) 0) (\<lambda>isTableAvailable.
                 seq [if isTableAvailable then wr (GroupStat ident) AT_TABLE
                      else wr (GroupStat ident) WAITING,
                      saveState,
                      semUp Mutex])))))"

definition orderFood :: "probConst \<Rightarrow> int \<Rightarrow> unit act" where
  "orderFood c ident =
     seq [semDown Mutex,
          wr (GroupStat ident) (FOOD_REQUEST c),
          saveState,
          wr WaiterRequestType (FOODREQ c),
          wr WaiterRequestGroup ident,
          saveState,
          semUp Mutex]"

definition waitFood :: "probConst \<Rightarrow> int \<Rightarrow> unit act" where
  "waitFood c ident =
     thn (seq [semDown Mutex,
               wr (GroupStat ident) (WAIT_FOR_FOOD c),
               saveState,
               semUp Mutex])
       (bnd (rd (AssignedTable ident)) (\<lambda>tableId.
          seq [semDown (FoodArrived tableId),
               semDown Mutex,
               wr (GroupStat ident) (EAT c),
               saveState,
               semUp Mutex]))"

definition checkOutAtReception :: "probConst \<Rightarrow> int \<Rightarrow> unit act" where
  "checkOutAtReception c ident =
     seq [semDown Mutex,
          wr (GroupStat ident) (CHECKOUT c),
          wr ReceptionistRequestType (BILLREQ c),
          wr ReceptionistRequestGroup ident,
          saveState,
          semUp Mutex,
          semDown (TableDone ident),
          semDown Mutex,
          wr (GroupStat ident) (LEAVING c),
          saveState,
          semUp Mutex]"

subsection \<open>The waiter\<close>

text \<open>The scan of \<^verbatim>\<open>waitForClientOrChef\<close> for a group in state \<^verbatim>\<open>FOOD_REQUEST\<close>.\<close>

fun scanOrders :: "probConst \<Rightarrow> nat \<Rightarrow> int \<Rightarrow> request option act" where
  "scanOrders c 0 i = ret None"
| "scanOrders c (Suc k) i =
     bnd (rd (GroupStat i)) (\<lambda>v.
       if v = FOOD_REQUEST c
       then thn (wr (GroupStat i) (WAIT_FOR_FOOD c))
              (ret (Some \<lparr>reqType = FOODREQ c, reqGroup = i\<rparr>))
       else scanOrders c k (i + 1))"

text \<open>One pass of the body of the \<^verbatim>\<open>while\<close> loop, up to the release of the mutex.\<close>

definition waiterPoll :: "probConst \<Rightarrow> request option act" where
  "waiterPoll c =
     thn (semDown Mutex)
       (bnd (scanOrders c (MAXGROUPS c) 0) (\<lambda>found.
          bnd (case found of
                 Some req \<Rightarrow> ret (Some req)
               | None \<Rightarrow>
                   bnd (rd ChefStat) (\<lambda>chef.
                     if chef = FOODREADY c
                     then bnd (rd FoodGroup) (\<lambda>g.
                            ret (Some \<lparr>reqType = FOODREADY c, reqGroup = g\<rparr>))
                     else ret None))
            (\<lambda>found'. thn (semUp Mutex) (ret found'))))"

text \<open>
  The \<^verbatim>\<open>while (!foundRequest)\<close> loop has no bound in the source.  The model runs it on
  fuel: each pass of the body takes one unit, and a run that has none left ends in
  \<open>OutOfFuel\<close>, so a loop that goes on for ever is \<open>OutOfFuel\<close> on every amount.
\<close>

fun waitLoop :: "probConst \<Rightarrow> nat \<Rightarrow> request act" where
  "waitLoop c 0 = OutOfFuel"
| "waitLoop c (Suc k) =
     bnd (waiterPoll c) (\<lambda>found.
       case found of
         Some req \<Rightarrow> ret req
       | None \<Rightarrow> thn (wr WaiterStat (WAIT_FOR_REQUEST c)) (waitLoop c k))"

definition waitForClientOrChef :: "probConst \<Rightarrow> nat \<Rightarrow> request act" where
  "waitForClientOrChef c fuel =
     bnd (waitLoop c fuel) (\<lambda>req. thn (semUp WaiterRequestPossible) (ret req))"

definition informChef :: "probConst \<Rightarrow> int \<Rightarrow> unit act" where
  "informChef c n =
     seq [semDown Mutex,
          wr WaiterRequestGroup n,
          wr WaiterStat (INFORM_CHEF c),
          saveState,
          semUp Mutex,
          semUp WaitOrder,
          semDown OrderReceived]"

definition takeFoodToTable :: "probConst \<Rightarrow> int \<Rightarrow> unit act" where
  "takeFoodToTable c n =
     thn (seq [semDown Mutex,
               wr WaiterStat (TAKE_TO_TABLE c),
               saveState,
               semUp Mutex])
       (bnd (rd (AssignedTable n)) (\<lambda>tableId. semUp (FoodArrived tableId)))"

subsection \<open>The operations as one family\<close>

datatype operation =
  GoToRestaurant int
  | CheckInAtReception int
  | OrderFood int
  | WaitFood int
  | Eat int
  | CheckOutAtReception int
  | WaitForGroup
  | ProvideTableOrWaitingRoom int
  | ReceivePayment int
  | WaitForClientOrChef nat
  | InformChef int
  | TakeFoodToTable int

text \<open>The world an operation leaves, whether it returns or stops on the way.\<close>

fun after :: "probConst \<Rightarrow> operation \<Rightarrow> world \<Rightarrow> world" where
  "after c (GoToRestaurant g) w = state_of (goToRestaurant g w)"
| "after c (CheckInAtReception g) w = state_of (checkInAtReception c g w)"
| "after c (OrderFood g) w = state_of (orderFood c g w)"
| "after c (WaitFood g) w = state_of (waitFood c g w)"
| "after c (Eat g) w = state_of (eat g w)"
| "after c (CheckOutAtReception g) w = state_of (checkOutAtReception c g w)"
| "after c WaitForGroup w = state_of (waitForGroup w)"
| "after c (ProvideTableOrWaitingRoom g) w = state_of (provideTableOrWaitingRoom c g w)"
| "after c (ReceivePayment g) w = state_of (receivePayment c g w)"
| "after c (WaitForClientOrChef fuel) w = state_of (waitForClientOrChef c fuel w)"
| "after c (InformChef g) w = state_of (informChef c g w)"
| "after c (TakeFoodToTable g) w = state_of (takeFoodToTable c g w)"

text \<open>The outcome of an operation, without the value it returns.\<close>

fun forget :: "'a outcome \<Rightarrow> unit outcome" where
  "forget (Returns x w) = Returns () w"
| "forget (Blocked s w) = Blocked s w"
| "forget (OutOfBounds w) = OutOfBounds w"
| "forget (OutOfFuel w) = OutOfFuel w"

fun run :: "probConst \<Rightarrow> operation \<Rightarrow> world \<Rightarrow> unit outcome" where
  "run c (GoToRestaurant g) w = goToRestaurant g w"
| "run c (CheckInAtReception g) w = checkInAtReception c g w"
| "run c (OrderFood g) w = orderFood c g w"
| "run c (WaitFood g) w = waitFood c g w"
| "run c (Eat g) w = eat g w"
| "run c (CheckOutAtReception g) w = checkOutAtReception c g w"
| "run c WaitForGroup w = forget (waitForGroup w)"
| "run c (ProvideTableOrWaitingRoom g) w = provideTableOrWaitingRoom c g w"
| "run c (ReceivePayment g) w = receivePayment c g w"
| "run c (WaitForClientOrChef fuel) w = forget (waitForClientOrChef c fuel w)"
| "run c (InformChef g) w = informChef c g w"
| "run c (TakeFoodToTable g) w = takeFoodToTable c g w"

text \<open>
  An outcome strays when the operation has indexed an array out of range.  What a C
  program does from there on is undefined, and the model says nothing about it.
\<close>

fun strays :: "'a outcome \<Rightarrow> bool" where
  "strays (OutOfBounds w) = True"
| "strays r = False"

subsection \<open>Reading the trace\<close>

text \<open>What a call adds to the trace.\<close>

definition emitted :: "'a act \<Rightarrow> world \<Rightarrow> event list" where
  "emitted m w = drop (length (trace w)) (trace (state_of (m w)))"

text \<open>
  A trace keeps the discipline of the mutex when every access to the shared state lies
  between a \<open>Down Mutex\<close> and the next \<open>Up Mutex\<close>.  The flag says whether the mutex
  is held at the start of the trace.
\<close>

fun guarded :: "bool \<Rightarrow> event list \<Rightarrow> bool" where
  "guarded held [] = True"
| "guarded held (Down s # es) = guarded (if s = Mutex then True else held) es"
| "guarded held (Up s # es) = guarded (if s = Mutex then False else held) es"
| "guarded held (Rd f # es) = (held \<and> guarded held es)"
| "guarded held (Wr f # es) = (held \<and> guarded held es)"
| "guarded held (SaveState # es) = (held \<and> guarded held es)"

text \<open>Whether the mutex is held at the end of a trace.\<close>

fun heldAfter :: "bool \<Rightarrow> event list \<Rightarrow> bool" where
  "heldAfter held [] = held"
| "heldAfter held (Down s # es) = heldAfter (if s = Mutex then True else held) es"
| "heldAfter held (Up s # es) = heldAfter (if s = Mutex then False else held) es"
| "heldAfter held (Rd f # es) = heldAfter held es"
| "heldAfter held (Wr f # es) = heldAfter held es"
| "heldAfter held (SaveState # es) = heldAfter held es"

text \<open>The waits of a trace on a semaphore other than the mutex.\<close>

fun waits :: "event list \<Rightarrow> sem list" where
  "waits [] = []"
| "waits (Down s # es) = (if s = Mutex then waits es else s # waits es)"
| "waits (e # es) = waits es"

subsection \<open>Properties of actions\<close>

text \<open>An action keeps a component of the world when no outcome of it changes the component.\<close>

definition keeps :: "(world \<Rightarrow> 'b) \<Rightarrow> 'a act \<Rightarrow> bool" where
  "keeps f m = (\<forall>w. f (state_of (m w)) = f w)"

text \<open>An action emits only events of a set when it extends the trace by such events.\<close>

definition emits :: "event set \<Rightarrow> 'a act \<Rightarrow> bool" where
  "emits A m = (\<forall>w. \<exists>es. trace (state_of (m w)) = trace w @ es \<and> set es \<subseteq> A)"

text \<open>
  An action is disciplined when, started with the mutex held or not as the first flag
  says, it extends the trace by events that keep the discipline of the mutex, and when it
  returns the mutex is held or not as the second flag says.
\<close>

definition disciplined :: "bool \<Rightarrow> 'a act \<Rightarrow> bool \<Rightarrow> bool" where
  "disciplined held m held' =
     (\<forall>w. \<exists>es. trace (state_of (m w)) = trace w @ es \<and> guarded held es
        \<and> (\<forall>x w'. m w = Returns x w' \<longrightarrow> heldAfter held es = held'))"

subsection \<open>Tables and groups\<close>

text \<open>The statuses of a group that sits at a table, from seated to checking out.\<close>

definition atTableStates :: "probConst \<Rightarrow> int list" where
  "atTableStates c = [AT_TABLE, FOOD_REQUEST c, WAIT_FOR_FOOD c, EAT c, CHECKOUT c]"

text \<open>The number of tables bound to a group.\<close>

definition tablesOf :: "probConst \<Rightarrow> world \<Rightarrow> int \<Rightarrow> nat" where
  "tablesOf c w g = count_list (take (NUMTABLES c) (assignedTable (fSt w))) g"

definition tableInv :: "probConst \<Rightarrow> world \<Rightarrow> bool" where
  "tableInv c w =
     list_all
       (\<lambda>g. groupStat (st (fSt w)) ! g \<in> set (atTableStates c) \<longrightarrow> tablesOf c w (int g) = 1)
       [0 ..< length (groupStat (st (fSt w)))]"

text \<open>The groups that have checked in and are not seated: at the reception or waiting.\<close>

definition notYetSeated :: "probConst \<Rightarrow> world \<Rightarrow> nat" where
  "notYetSeated c w =
     length (filter (\<lambda>s. s = ATRECEPTION c \<or> s = WAITING) (groupStat (st (fSt w))))"

text \<open>A table is vacant when its entry is \<open>- 1\<close>.\<close>

definition vacantTable :: "probConst \<Rightarrow> world \<Rightarrow> bool" where
  "vacantTable c w = (- 1 \<in> set (take (NUMTABLES c) (assignedTable (fSt w))))"

text \<open>No order is pending and the chef has nothing ready: the waiter has nothing to do.\<close>

definition nothingToDo :: "probConst \<Rightarrow> world \<Rightarrow> bool" where
  "nothingToDo c w =
     (FOOD_REQUEST c \<notin> set (take (MAXGROUPS c) (groupStat (st (fSt w))))
      \<and> chefStat (st (fSt w)) \<noteq> FOODREADY c)"

subsection \<open>Sample values\<close>

text \<open>
  A choice of the constants of \<^verbatim>\<open>probConst.h\<close>, for running the model on concrete
  worlds: two tables, four groups.
\<close>

definition sampleConst :: probConst where
  "sampleConst =
     \<lparr>NUMTABLES = 2, MAXGROUPS = 4,
      ATRECEPTION = 2, FOOD_REQUEST = 3, WAIT_FOR_FOOD = 4, EAT = 5, CHECKOUT = 6, LEAVING = 7,
      WAIT_FOR_REQUEST = 0, INFORM_CHEF = 1, TAKE_TO_TABLE = 2,
      ASSIGNTABLE = 1, RECVPAY = 2,
      TABLEREQ = 1, BILLREQ = 2, FOODREQ = 1, FOODREADY = 2\<rparr>"

text \<open>
  A world with the given group statuses, table assignment, request to the receptionist
  and receptionist's record; the mutex is free, every other semaphore is zero and the
  trace is empty.
\<close>

definition sampleWorld :: "int list \<Rightarrow> int list \<Rightarrow> request \<Rightarrow> int list \<Rightarrow> world" where
  "sampleWorld gs tables req rec =
     \<lparr>fSt = \<lparr>st = \<lparr>groupStat = gs, receptionistStat = 0, waiterStat = 0, chefStat = 0\<rparr>,
             startTime = [0, 0, 0, 0], eatTime = [0, 0, 0, 0],
             groupsWaiting = 0,
             receptionistRequest = req,
             waiterRequest = \<lparr>reqType = 0, reqGroup = 0\<rparr>,
             foodGroup = 0,
             assignedTable = tables\<rparr>,
      sems = \<lparr>mutex = 1, waitForTable = [0, 0, 0, 0], tableDone = [0, 0, 0, 0],
              foodArrived = [0, 0, 0, 0], waiterRequestPossible = 0, waitOrder = 0,
              orderReceived = 0\<rparr>,
      groupRecord = rec,
      trace = []\<rparr>"

definition noRequest :: request where
  "noRequest = \<lparr>reqType = 0, reqGroup = 0\<rparr>"

text \<open>Nobody has arrived and every table is vacant.\<close>

definition openWorld :: world where
  "openWorld = sampleWorld [0, 0, 0, 0] [- 1, - 1, - 1, - 1] noRequest [0, 0, 0, 0]"

text \<open>
  Groups 0 and 1 sit at tables 0 and 1, group 0 has asked for the bill and group 1 eats;
  groups 2 and 3 wait for a table.
\<close>

definition payWorld :: world where
  "payWorld =
     sampleWorld [6, 5, 2, 2] [0, 1, - 1, - 1] \<lparr>reqType = 2, reqGroup = 0\<rparr> [2, 2, 1, 1]"

text \<open>
  Group 2 sits at table 0 and eats, group 0 sits at table 1 and has asked for the bill.
\<close>

definition crossWorld :: world where
  "crossWorld =
     sampleWorld [6, 0, 5, 0] [2, 0, - 1, - 1] \<lparr>reqType = 2, reqGroup = 0\<rparr> [2, 0, 2, 0]"

text \<open>Both tables are taken by groups 0 and 1, who eat; groups 2 and 3 have not arrived.\<close>

definition fullWorld :: world where
  "fullWorld = sampleWorld [5, 5, 0, 0] [0, 1, - 1, - 1] noRequest [2, 2, 0, 0]"

text \<open>Group 3 has just checked in at the open restaurant.\<close>

definition requestWorld :: world where
  "requestWorld = state_of (checkInAtReception sampleConst 3 openWorld)"

text \<open>Group 0 has checked in at the open restaurant and sits at table 0.\<close>

definition seatedWorld :: world where
  "seatedWorld = after sampleConst (CheckInAtReception 0) openWorld"

text \<open>Then group 1 has checked in as well and sits at table 1: both tables are taken.\<close>

definition twoSeated :: world where
  "twoSeated = after sampleConst (CheckInAtReception 1) seatedWorld"

section \<open>Reasoning about actions\<close>

lemmas prim_defs = rd_def wr_def rdRec_def wrRec_def semDown_def semUp_def saveState_def

lemmas run_defs = prim_defs bnd_def thn_def ret_def idx_def upd_def sampleConst_def sampleWorld_def
  noRequest_def AT_TABLE_def WAITING_def WAIT_def ATTABLE_def DONE_def TOARRIVE_def
  eval_nat_numeral

subsection \<open>Components that an action keeps\<close>

lemma keeps_ret: "keeps f (ret x)"
  by (simp add: keeps_def ret_def)

lemma keeps_bnd:
  assumes m: "keeps f m" and k: "\<And>x. keeps f (k x)"
  shows "keeps f (bnd m k)"
  unfolding keeps_def
proof
  fix w
  have mw: "f (state_of (m w)) = f w"
    using m by (simp add: keeps_def)
  show "f (state_of (bnd m k w)) = f w"
  proof (cases "m w")
    case (Returns x w')
    have "f (state_of (k x w')) = f w'"
      using k [of x] by (simp add: keeps_def)
    with Returns mw show ?thesis by (simp add: bnd_def)
  qed (use mw in \<open>simp_all add: bnd_def\<close>)
qed

lemma keeps_thn: "keeps f m \<Longrightarrow> keeps f k \<Longrightarrow> keeps f (thn m k)"
  by (simp add: thn_def keeps_bnd)

lemma keeps_if: "(b \<Longrightarrow> keeps f m) \<Longrightarrow> (\<not> b \<Longrightarrow> keeps f k) \<Longrightarrow> keeps f (if b then m else k)"
  by simp

lemma keeps_seq_Nil: "keeps f (seq [])"
  by (simp add: keeps_ret)

lemma keeps_seq_Cons: "keeps f m \<Longrightarrow> keeps f (seq ms) \<Longrightarrow> keeps f (seq (m # ms))"
  by (simp add: keeps_thn)

lemma keeps_rd: "(\<And>w es. f (w\<lparr>trace := es\<rparr>) = f w) \<Longrightarrow> keeps f (rd fl)"
  by (simp add: keeps_def rd_def split: option.splits)

lemma keeps_saveState: "(\<And>w es. f (w\<lparr>trace := es\<rparr>) = f w) \<Longrightarrow> keeps f saveState"
  by (simp add: keeps_def saveState_def)

lemma keeps_rdRec: "keeps f (rdRec i)"
  by (simp add: keeps_def rdRec_def split: option.splits)

lemma keeps_wrRec:
  "(\<And>w xs. upd (groupRecord w) i v = Some xs \<Longrightarrow> f (w\<lparr>groupRecord := xs\<rparr>) = f w)
   \<Longrightarrow> keeps f (wrRec i v)"
  by (simp add: keeps_def wrRec_def split: option.splits)

lemma keeps_wr:
  "(\<And>w s es. store fl v (fSt w) = Some s \<Longrightarrow> f (w\<lparr>fSt := s, trace := es\<rparr>) = f w)
   \<Longrightarrow> keeps f (wr fl v)"
  by (simp add: keeps_def wr_def split: option.splits)

lemma keeps_semDown:
  "(\<And>w v es. f (w\<lparr>sems := semput s v (sems w), trace := es\<rparr>) = f w)
   \<Longrightarrow> keeps f (semDown s)"
  by (simp add: keeps_def semDown_def split: option.splits)

lemma keeps_semUp:
  "(\<And>w v es. f (w\<lparr>sems := semput s v (sems w), trace := es\<rparr>) = f w)
   \<Longrightarrow> keeps f (semUp s)"
  by (simp add: keeps_def semUp_def split: option.splits)

lemma keeps_scanWaiting: "keeps f (scanWaiting k i)"
  by (induction k arbitrary: i) (auto intro!: keeps_ret keeps_bnd keeps_rdRec)

lemma keeps_countOccupied:
  "(\<And>w es. f (w\<lparr>trace := es\<rparr>) = f w) \<Longrightarrow> keeps f (countOccupied k t a)"
  by (induction k arbitrary: t a) (auto intro!: keeps_ret keeps_bnd keeps_rd)

lemma keeps_firstVacant:
  "(\<And>w es. f (w\<lparr>trace := es\<rparr>) = f w) \<Longrightarrow> keeps f (firstVacant k t)"
  by (induction k arbitrary: t) (auto intro!: keeps_ret keeps_bnd keeps_rd)

lemma keeps_takeVacant:
  assumes "\<And>w es. f (w\<lparr>trace := es\<rparr>) = f w"
    and "\<And>w s es i v. store (AssignedTable i) v (fSt w) = Some s \<Longrightarrow> f (w\<lparr>fSt := s, trace := es\<rparr>) = f w"
    and "\<And>w s es v. store (GroupStat g) v (fSt w) = Some s \<Longrightarrow> f (w\<lparr>fSt := s, trace := es\<rparr>) = f w"
  shows "keeps f (takeVacant g k i)"
proof (induction k arbitrary: i)
  case 0
  show ?case by (simp add: keeps_ret)
next
  case (Suc k)
  show ?case
    unfolding takeVacant.simps
    by (intro keeps_bnd keeps_if keeps_thn keeps_ret keeps_rd keeps_wr Suc assms)
qed

lemma keeps_scanOrders:
  assumes "\<And>w es. f (w\<lparr>trace := es\<rparr>) = f w"
    and "\<And>w s es i v. store (GroupStat i) v (fSt w) = Some s \<Longrightarrow> f (w\<lparr>fSt := s, trace := es\<rparr>) = f w"
  shows "keeps f (scanOrders c k i)"
proof (induction k arbitrary: i)
  case 0
  show ?case by (simp add: keeps_ret)
next
  case (Suc k)
  show ?case
    unfolding scanOrders.simps
    by (intro keeps_bnd keeps_if keeps_thn keeps_ret keeps_rd keeps_wr Suc assms)
qed

lemma keeps_waiterPoll:
  assumes "\<And>w es. f (w\<lparr>trace := es\<rparr>) = f w"
    and "\<And>w s es i v. store (GroupStat i) v (fSt w) = Some s \<Longrightarrow> f (w\<lparr>fSt := s, trace := es\<rparr>) = f w"
    and "\<And>w v es. f (w\<lparr>sems := semput Mutex v (sems w), trace := es\<rparr>) = f w"
  shows "keeps f (waiterPoll c)"
  unfolding waiterPoll_def
  by (intro keeps_bnd keeps_if keeps_thn keeps_ret keeps_rd keeps_semDown keeps_semUp
      keeps_scanOrders assms)
    (auto split: option.splits intro!: keeps_bnd keeps_ret keeps_rd assms)

lemma keeps_waitLoop:
  assumes "\<And>w es. f (w\<lparr>trace := es\<rparr>) = f w"
    and "\<And>w s es i v. store (GroupStat i) v (fSt w) = Some s \<Longrightarrow> f (w\<lparr>fSt := s, trace := es\<rparr>) = f w"
    and "\<And>w s es v. store WaiterStat v (fSt w) = Some s \<Longrightarrow> f (w\<lparr>fSt := s, trace := es\<rparr>) = f w"
    and "\<And>w v es. f (w\<lparr>sems := semput Mutex v (sems w), trace := es\<rparr>) = f w"
  shows "keeps f (waitLoop c fuel)"
proof (induction fuel)
  case 0
  show ?case by (simp add: keeps_def)
next
  case (Suc fuel)
  have "keeps f (case found of Some req \<Rightarrow> ret req
          | None \<Rightarrow> thn (wr WaiterStat (WAIT_FOR_REQUEST c)) (waitLoop c fuel))" for found
    by (cases found) (auto intro!: keeps_ret keeps_thn keeps_wr Suc assms(3))
  then show ?case
    unfolding waitLoop.simps
    by (intro keeps_bnd keeps_waiterPoll assms)
qed

lemmas keeps_intros =
  keeps_ret keeps_bnd keeps_thn keeps_if keeps_seq_Nil keeps_seq_Cons keeps_rd keeps_saveState
  keeps_rdRec keeps_wrRec keeps_wr keeps_semDown keeps_semUp keeps_scanWaiting
  keeps_countOccupied keeps_firstVacant

lemma keepsD: "keeps f m \<Longrightarrow> f (state_of (m w)) = f w"
  by (simp add: keeps_def)

subsection \<open>Events that an action emits\<close>

lemma emits_ret: "emits A (ret x)"
  by (simp add: emits_def ret_def)

lemma emits_bnd:
  assumes m: "emits A m" and k: "\<And>x. emits A (k x)"
  shows "emits A (bnd m k)"
  unfolding emits_def
proof
  fix w
  from m obtain es where es: "trace (state_of (m w)) = trace w @ es" "set es \<subseteq> A"
    unfolding emits_def by blast
  show "\<exists>es. trace (state_of (bnd m k w)) = trace w @ es \<and> set es \<subseteq> A"
  proof (cases "m w")
    case (Returns x w')
    from k [of x] obtain es' where
      es': "trace (state_of (k x w')) = trace w' @ es'" "set es' \<subseteq> A"
      unfolding emits_def by blast
    from Returns es es' have "trace (state_of (bnd m k w)) = trace w @ (es @ es')"
      by (simp add: bnd_def)
    moreover from es es' have "set (es @ es') \<subseteq> A" by simp
    ultimately show ?thesis by blast
  qed (use es in \<open>auto simp: bnd_def\<close>)
qed

lemma emits_thn: "emits A m \<Longrightarrow> emits A k \<Longrightarrow> emits A (thn m k)"
  by (simp add: thn_def emits_bnd)

lemma emits_if: "(b \<Longrightarrow> emits A m) \<Longrightarrow> (\<not> b \<Longrightarrow> emits A k) \<Longrightarrow> emits A (if b then m else k)"
  by simp

lemma emits_seq_Nil: "emits A (seq [])"
  by (simp add: emits_ret)

lemma emits_seq_Cons: "emits A m \<Longrightarrow> emits A (seq ms) \<Longrightarrow> emits A (seq (m # ms))"
  by (simp add: emits_thn)

lemma emits_rd: "Rd fl \<in> A \<Longrightarrow> emits A (rd fl)"
  by (simp add: emits_def rd_def split: option.splits)

lemma emits_wr: "Wr fl \<in> A \<Longrightarrow> emits A (wr fl v)"
  by (simp add: emits_def wr_def split: option.splits)

lemma emits_saveState: "SaveState \<in> A \<Longrightarrow> emits A saveState"
  by (simp add: emits_def saveState_def)

lemma emits_rdRec: "emits A (rdRec i)"
  by (simp add: emits_def rdRec_def split: option.splits)

lemma emits_wrRec: "emits A (wrRec i v)"
  by (simp add: emits_def wrRec_def split: option.splits)

lemma emits_semDown: "Down s \<in> A \<Longrightarrow> emits A (semDown s)"
  by (simp add: emits_def semDown_def split: option.splits)

lemma emits_semUp: "Up s \<in> A \<Longrightarrow> emits A (semUp s)"
  by (simp add: emits_def semUp_def split: option.splits)

lemma emits_scanWaiting: "emits A (scanWaiting k i)"
  by (induction k arbitrary: i) (auto intro!: emits_ret emits_bnd emits_rdRec)

lemma emits_countOccupied:
  "(\<And>i. Rd (AssignedTable i) \<in> A) \<Longrightarrow> emits A (countOccupied k t a)"
  by (induction k arbitrary: t a) (auto intro!: emits_ret emits_bnd emits_rd)

lemma emits_firstVacant:
  "(\<And>i. Rd (AssignedTable i) \<in> A) \<Longrightarrow> emits A (firstVacant k t)"
  by (induction k arbitrary: t) (auto intro!: emits_ret emits_bnd emits_rd)

lemmas emits_intros =
  emits_ret emits_bnd emits_thn emits_if emits_seq_Nil emits_seq_Cons emits_rd emits_wr
  emits_saveState emits_rdRec emits_wrRec emits_semDown emits_semUp emits_scanWaiting
  emits_countOccupied emits_firstVacant

lemma emits_emitted:
  assumes "emits A m"
  shows "set (emitted m w) \<subseteq> A"
proof -
  from assms obtain es where "trace (state_of (m w)) = trace w @ es" "set es \<subseteq> A"
    unfolding emits_def by blast
  then show ?thesis by (simp add: emitted_def)
qed

subsection \<open>The discipline of the mutex\<close>

lemma guarded_append: "guarded h (es @ es') = (guarded h es \<and> guarded (heldAfter h es) es')"
proof (induction es arbitrary: h)
  case Nil
  then show ?case by simp
next
  case (Cons e es)
  then show ?case by (cases e) auto
qed

lemma heldAfter_append: "heldAfter h (es @ es') = heldAfter (heldAfter h es) es'"
proof (induction es arbitrary: h)
  case Nil
  then show ?case by simp
next
  case (Cons e es)
  then show ?case by (cases e) auto
qed

lemma disciplined_ret: "disciplined h (ret x) h"
  by (simp add: disciplined_def ret_def)

lemma disciplined_bnd:
  assumes m: "disciplined h m h1" and k: "\<And>x. disciplined h1 (k x) h2"
  shows "disciplined h (bnd m k) h2"
  unfolding disciplined_def
proof
  fix w
  from m obtain es where es: "trace (state_of (m w)) = trace w @ es" "guarded h es"
    "\<forall>x w'. m w = Returns x w' \<longrightarrow> heldAfter h es = h1"
    unfolding disciplined_def by blast
  show "\<exists>es. trace (state_of (bnd m k w)) = trace w @ es \<and> guarded h es
        \<and> (\<forall>x w'. bnd m k w = Returns x w' \<longrightarrow> heldAfter h es = h2)"
  proof (cases "m w")
    case (Returns x w')
    from k [of x] obtain es' where es': "trace (state_of (k x w')) = trace w' @ es'"
      "guarded h1 es'" "\<forall>y w''. k x w' = Returns y w'' \<longrightarrow> heldAfter h1 es' = h2"
      unfolding disciplined_def by blast
    from Returns es have h1: "heldAfter h es = h1" by simp
    from Returns es es' have "trace (state_of (bnd m k w)) = trace w @ (es @ es')"
      by (simp add: bnd_def)
    moreover from es es' h1 have "guarded h (es @ es')"
      by (simp add: guarded_append)
    moreover from Returns es' h1 have
      "\<forall>y w''. bnd m k w = Returns y w'' \<longrightarrow> heldAfter h (es @ es') = h2"
      by (simp add: bnd_def heldAfter_append)
    ultimately show ?thesis by blast
  qed (use es in \<open>auto simp: bnd_def\<close>)
qed

lemma disciplined_thn: "disciplined h m h1 \<Longrightarrow> disciplined h1 k h2 \<Longrightarrow> disciplined h (thn m k) h2"
  by (simp add: thn_def disciplined_bnd)

lemma disciplined_if:
  "(b \<Longrightarrow> disciplined h m h') \<Longrightarrow> (\<not> b \<Longrightarrow> disciplined h k h') \<Longrightarrow> disciplined h (if b then m else k) h'"
  by simp

lemma disciplined_seq_Nil: "disciplined h (seq []) h"
  by (simp add: disciplined_ret)

lemma disciplined_seq_Cons:
  "disciplined h m h1 \<Longrightarrow> disciplined h1 (seq ms) h2 \<Longrightarrow> disciplined h (seq (m # ms)) h2"
  by (simp add: disciplined_thn)

lemma disciplined_rd: "disciplined True (rd fl) True"
  by (simp add: disciplined_def rd_def split: option.splits)

lemma disciplined_wr: "disciplined True (wr fl v) True"
  by (simp add: disciplined_def wr_def split: option.splits)

lemma disciplined_saveState: "disciplined True saveState True"
  by (simp add: disciplined_def saveState_def)

lemma disciplined_rdRec: "disciplined h (rdRec i) h"
  by (simp add: disciplined_def rdRec_def split: option.splits)

lemma disciplined_wrRec: "disciplined h (wrRec i v) h"
  by (simp add: disciplined_def wrRec_def split: option.splits)

lemma disciplined_acquire: "disciplined h (semDown Mutex) True"
  by (simp add: disciplined_def semDown_def)

lemma disciplined_release: "disciplined h (semUp Mutex) False"
  by (simp add: disciplined_def semUp_def)

lemma disciplined_semDown: "s \<noteq> Mutex \<Longrightarrow> disciplined h (semDown s) h"
  by (simp add: disciplined_def semDown_def split: option.splits)

lemma disciplined_semUp: "s \<noteq> Mutex \<Longrightarrow> disciplined h (semUp s) h"
  by (simp add: disciplined_def semUp_def split: option.splits)

lemma disciplined_takeVacant: "disciplined True (takeVacant g k i) True"
  by (induction k arbitrary: i)
    (auto intro!: disciplined_ret disciplined_bnd disciplined_thn disciplined_rd disciplined_wr)

lemma disciplined_countOccupied: "disciplined True (countOccupied k t a) True"
  by (induction k arbitrary: t a) (auto intro!: disciplined_ret disciplined_bnd disciplined_rd)

lemma disciplined_firstVacant: "disciplined True (firstVacant k t) True"
  by (induction k arbitrary: t) (auto intro!: disciplined_ret disciplined_bnd disciplined_rd)

lemma disciplined_scanWaiting: "disciplined h (scanWaiting k i) h"
  by (induction k arbitrary: i) (auto intro!: disciplined_ret disciplined_bnd disciplined_rdRec)

lemma disciplined_scanOrders: "disciplined True (scanOrders c k i) True"
  by (induction k arbitrary: i)
    (auto intro!: disciplined_ret disciplined_bnd disciplined_thn disciplined_rd disciplined_wr)

lemma disciplined_emitted:
  assumes "disciplined h m h'"
  shows "guarded h (emitted m w)"
proof -
  from assms obtain es where "trace (state_of (m w)) = trace w @ es" "guarded h es"
    unfolding disciplined_def by blast
  then show ?thesis by (simp add: emitted_def)
qed

lemmas disciplined_intros =
  disciplined_ret disciplined_bnd disciplined_thn disciplined_if disciplined_seq_Nil
  disciplined_seq_Cons disciplined_rd disciplined_wr disciplined_saveState disciplined_rdRec
  disciplined_wrRec disciplined_acquire disciplined_release disciplined_takeVacant
  disciplined_countOccupied disciplined_firstVacant disciplined_scanWaiting
  disciplined_scanOrders disciplined_semDown disciplined_semUp

subsection \<open>Laws of sequencing\<close>

lemma bnd_assoc: "bnd (bnd m f) k = bnd m (\<lambda>x. bnd (f x) k)"
proof
  fix w
  show "bnd (bnd m f) k w = bnd m (\<lambda>x. bnd (f x) k) w"
    by (cases "m w") (simp_all add: bnd_def)
qed

lemma bnd_ret: "bnd (ret x) k = k x"
  by (rule ext) (simp add: bnd_def ret_def)

subsection \<open>Actions that return\<close>

lemma bnd_Returns:
  "bnd m k w = Returns y w'' \<longleftrightarrow> (\<exists>x w'. m w = Returns x w' \<and> k x w' = Returns y w'')"
  by (cases "m w") (simp_all add: bnd_def)

lemma thn_Returns:
  "thn m k w = Returns y w'' \<longleftrightarrow> (\<exists>x w'. m w = Returns x w' \<and> k w' = Returns y w'')"
  by (simp add: thn_def bnd_Returns)

lemma rd_Returns:
  "rd fl w = Returns v w' \<longleftrightarrow> load fl (fSt w) = Some v \<and> w' = w\<lparr>trace := trace w @ [Rd fl]\<rparr>"
  by (auto simp: rd_def split: option.splits)

section \<open>The receptionist assigns a table or sends the group to wait\<close>

subsection \<open>What \<^verbatim>\<open>decideTableOrWait\<close> answers\<close>

lemma countOccupied_Returns:
  "countOccupied k t a w = Returns x w' \<Longrightarrow> 0 \<le> t \<Longrightarrow>
     x = a + int (count_list (take k (drop (nat t) (assignedTable (fSt w)))) 1)
     \<and> length (take k (drop (nat t) (assignedTable (fSt w)))) = k"
proof (induction k arbitrary: t a w)
  case 0
  then show ?case by (simp add: ret_def)
next
  case (Suc k)
  from Suc.prems(1) obtain v w1 where
    r: "rd (AssignedTable t) w = Returns v w1" and
    c: "countOccupied k (t + 1) (if v = 1 then a + 1 else a) w1 = Returns x w'"
    by (auto simp: bnd_Returns)
  from r Suc.prems(2) have lt: "nat t < length (assignedTable (fSt w))"
    and v: "v = assignedTable (fSt w) ! nat t" and w1: "fSt w1 = fSt w"
    by (auto simp: rd_Returns idx_def split: if_splits)
  from Suc.prems(2) have n: "nat (t + 1) = Suc (nat t)" by simp
  from Suc.IH [OF c] Suc.prems(2) n w1 have
    x: "x = (if v = 1 then a + 1 else a)
          + int (count_list (take k (drop (Suc (nat t)) (assignedTable (fSt w)))) 1)"
    and le: "length (take k (drop (Suc (nat t)) (assignedTable (fSt w)))) = k"
    by simp_all
  from lt have "drop (nat t) (assignedTable (fSt w))
      = assignedTable (fSt w) ! nat t # drop (Suc (nat t)) (assignedTable (fSt w))"
    by (simp add: Cons_nth_drop_Suc)
  with x v le show ?case by simp
qed

lemma firstVacant_Returns:
  "firstVacant k t w = Returns x w' \<Longrightarrow> 0 \<le> t \<Longrightarrow>
     (x \<noteq> - 1) = (- 1 \<in> set (take k (drop (nat t) (assignedTable (fSt w)))))"
proof (induction k arbitrary: t w)
  case 0
  then show ?case by (simp add: ret_def)
next
  case (Suc k)
  from Suc.prems(1) obtain v w1 where
    r: "rd (AssignedTable t) w = Returns v w1" and
    c: "(if v = - 1 then ret t else firstVacant k (t + 1)) w1 = Returns x w'"
    by (auto simp: bnd_Returns)
  from r Suc.prems(2) have lt: "nat t < length (assignedTable (fSt w))"
    and v: "v = assignedTable (fSt w) ! nat t" and w1: "fSt w1 = fSt w"
    by (auto simp: rd_Returns idx_def split: if_splits)
  from Suc.prems(2) have n: "nat (t + 1) = Suc (nat t)" by simp
  from lt have d: "drop (nat t) (assignedTable (fSt w))
      = assignedTable (fSt w) ! nat t # drop (Suc (nat t)) (assignedTable (fSt w))"
    by (simp add: Cons_nth_drop_Suc)
  show ?case
  proof (cases "v = - 1")
    case True
    with c Suc.prems(2) have "x = t" by (simp add: ret_def)
    with True v d Suc.prems(2) show ?thesis by simp
  next
    case False
    with c have "firstVacant k (t + 1) w1 = Returns x w'" by simp
    from Suc.IH [OF this] Suc.prems(2) n w1 have
      "(x \<noteq> - 1) = (- 1 \<in> set (take k (drop (Suc (nat t)) (assignedTable (fSt w)))))"
      by simp
    with False v d show ?thesis by simp
  qed
qed

lemma count_list_all: "count_list xs a = length xs \<Longrightarrow> b \<noteq> a \<Longrightarrow> b \<notin> set xs"
proof (induction xs)
  case Nil
  then show ?case by simp
next
  case (Cons x xs)
  have "count_list xs a \<le> length xs" by (rule count_le_length)
  with Cons show ?case by (auto split: if_splits)
qed

lemma decideTableOrWait_Returns:
  assumes "decideTableOrWait c n w = Returns t w'"
  shows "(t \<noteq> - 1) = vacantTable c w"
proof -
  from assms obtain occ w1 where
    co: "countOccupied (NUMTABLES c) 0 0 w = Returns occ w1" and
    r: "(if occ = int (NUMTABLES c) then ret (- 1) else firstVacant (NUMTABLES c) 0) w1 = Returns t w'"
    by (auto simp: decideTableOrWait_def bnd_Returns)
  from countOccupied_Returns [OF co] have
    occ: "occ = int (count_list (take (NUMTABLES c) (assignedTable (fSt w))) 1)"
    and le: "length (take (NUMTABLES c) (assignedTable (fSt w))) = NUMTABLES c"
    by simp_all
  have w1: "fSt w1 = fSt w"
    using keepsD [of fSt "countOccupied (NUMTABLES c) 0 0" w] co
    by (simp add: keeps_countOccupied)
  show ?thesis
  proof (cases "occ = int (NUMTABLES c)")
    case True
    with r have t: "t = - 1" by (simp add: ret_def)
    from True occ le have "count_list (take (NUMTABLES c) (assignedTable (fSt w))) 1
        = length (take (NUMTABLES c) (assignedTable (fSt w)))"
      by simp
    then have "- 1 \<notin> set (take (NUMTABLES c) (assignedTable (fSt w)))"
      by (rule count_list_all) simp
    with t show ?thesis by (simp add: vacantTable_def)
  next
    case False
    with r have "firstVacant (NUMTABLES c) 0 w1 = Returns t w'" by simp
    from firstVacant_Returns [OF this] w1 show ?thesis by (simp add: vacantTable_def)
  qed
qed


subsection \<open>The frame of \<^verbatim>\<open>provideTableOrWaitingRoom\<close>\<close>

lemma provide_keeps_shared:
  "keeps (\<lambda>w. (fSt w)\<lparr>st := (st (fSt w))\<lparr>receptionistStat := 0\<rparr>\<rparr>) (provideTableOrWaitingRoom c n)"
  unfolding provideTableOrWaitingRoom_def decideTableOrWait_def
  by (intro keeps_intros) auto

lemma provide_emits:
  "emits ({Wr ReceptionistStat, Up Mutex, Up (WaitForTable n), Down Mutex, SaveState} \<union> range Rd)
     (provideTableOrWaitingRoom c n)"
  unfolding provideTableOrWaitingRoom_def decideTableOrWait_def
  by (intro emits_intros) simp_all

lemma provide_Returns:
  assumes "provideTableOrWaitingRoom c n w = Returns u w'"
  shows "sems w' = (if vacantTable c w
           then (sems w)\<lparr>waitForTable := (waitForTable (sems w))[nat n := Suc (waitForTable (sems w) ! nat n)]\<rparr>
           else sems w)
         \<and> groupRecord w' = (groupRecord w)[nat n := (if vacantTable c w then ATTABLE else WAIT)]"
proof -
  from assms obtain w1 t w2 where
    d: "semDown Mutex w = Returns () w1" and
    dec: "decideTableOrWait c n w1 = Returns t w2" and
    rest: "seq [if t \<noteq> - 1
               then seq [wr ReceptionistStat (ASSIGNTABLE c), wrRec n ATTABLE,
                         semUp (WaitForTable n)]
               else seq [wr ReceptionistStat WAIT, wrRec n WAIT],
               saveState,
               semUp Mutex] w2 = Returns u w'"
    by (auto simp: provideTableOrWaitingRoom_def thn_Returns bnd_Returns)
  from d have m: "0 < mutex (sems w)" and
    w1: "fSt w1 = fSt w" "groupRecord w1 = groupRecord w"
        "sems w1 = (sems w)\<lparr>mutex := mutex (sems w) - 1\<rparr>"
    by (auto simp: semDown_def split: if_splits)
  have k: "keeps (\<lambda>w. (fSt w, sems w, groupRecord w)) (decideTableOrWait c n)"
    unfolding decideTableOrWait_def by (intro keeps_intros) simp_all
  from keepsD [OF k, of w1] dec have
    w2: "fSt w2 = fSt w1" "sems w2 = sems w1" "groupRecord w2 = groupRecord w1"
    by simp_all
  from decideTableOrWait_Returns [OF dec] w1 have t: "(t \<noteq> - 1) = vacantTable c w"
    by (simp add: vacantTable_def)
  show ?thesis
  proof (cases "vacantTable c w")
    case True
    with t rest m w1 w2 show ?thesis
      by (auto simp: thn_Returns prim_defs ret_def idx_def upd_def split: option.splits if_splits)
  next
    case False
    with t rest m w1 w2 show ?thesis
      by (auto simp: thn_Returns prim_defs ret_def idx_def upd_def split: option.splits if_splits)
  qed
qed

text \<open>
  Claim C10.  For every group \<open>n\<close> and every world, \<^verbatim>\<open>provideTableOrWaitingRoom(n)\<close> changes
  neither the shared array \<^verbatim>\<open>assignedTable\<close> nor any entry of the shared array of group
  statuses.  The only field of the shared state it writes is the receptionist's own
  status; the only semaphores it raises are the mutex and the group's
  \<^verbatim>\<open>waitForTable\<close>, and it waits on the mutex alone.  When it returns, it has signalled
  \<^verbatim>\<open>waitForTable[n]\<close> exactly when a table was vacant, and it has written entry \<open>n\<close> of
  its private \<^verbatim>\<open>groupRecord\<close>.
\<close>

theorem provideTableOrWaitingRoom_frame:
  "assignedTable (fSt (after c (ProvideTableOrWaitingRoom n) w)) = assignedTable (fSt w)
   \<and> groupStat (st (fSt (after c (ProvideTableOrWaitingRoom n) w))) = groupStat (st (fSt w))
   \<and> fSt (after c (ProvideTableOrWaitingRoom n) w) =
       (fSt w)\<lparr>st := (st (fSt w))\<lparr>receptionistStat :=
          receptionistStat (st (fSt (after c (ProvideTableOrWaitingRoom n) w)))\<rparr>\<rparr>
   \<and> (\<forall>f. Wr f \<in> set (emitted (provideTableOrWaitingRoom c n) w) \<longrightarrow> f = ReceptionistStat)
   \<and> (\<forall>s. Up s \<in> set (emitted (provideTableOrWaitingRoom c n) w) \<longrightarrow> s = Mutex \<or> s = WaitForTable n)
   \<and> (\<forall>s. Down s \<in> set (emitted (provideTableOrWaitingRoom c n) w) \<longrightarrow> s = Mutex)
   \<and> (\<forall>w'. provideTableOrWaitingRoom c n w = Returns () w' \<longrightarrow>
         sems w' = (if vacantTable c w
           then (sems w)\<lparr>waitForTable :=
                  (waitForTable (sems w))[nat n := Suc (waitForTable (sems w) ! nat n)]\<rparr>
           else sems w)
         \<and> groupRecord w' = (groupRecord w)[nat n := (if vacantTable c w then ATTABLE else WAIT)])"
proof -
  let ?w' = "after c (ProvideTableOrWaitingRoom n) w"
  have "(fSt ?w')\<lparr>st := (st (fSt ?w'))\<lparr>receptionistStat := 0\<rparr>\<rparr>
      = (fSt w)\<lparr>st := (st (fSt w))\<lparr>receptionistStat := 0\<rparr>\<rparr>"
    using keepsD [OF provide_keeps_shared [where c = c and n = n], where w = w] by simp
  then have shared: "fSt ?w' = (fSt w)\<lparr>st := (st (fSt w))\<lparr>receptionistStat :=
          receptionistStat (st (fSt ?w'))\<rparr>\<rparr>"
    by (cases "fSt ?w'"; cases "fSt w"; cases "st (fSt ?w')"; cases "st (fSt w)") simp
  have tables: "assignedTable (fSt ?w') = assignedTable (fSt w)"
    by (subst shared) simp
  have stats: "groupStat (st (fSt ?w')) = groupStat (st (fSt w))"
    by (subst shared) simp
  note ev = emits_emitted [OF provide_emits [where c = c and n = n], where w = w]
  have wr: "\<forall>f. Wr f \<in> set (emitted (provideTableOrWaitingRoom c n) w) \<longrightarrow> f = ReceptionistStat"
    using ev by auto
  have up: "\<forall>s. Up s \<in> set (emitted (provideTableOrWaitingRoom c n) w) \<longrightarrow> s = Mutex \<or> s = WaitForTable n"
    using ev by auto
  have down: "\<forall>s. Down s \<in> set (emitted (provideTableOrWaitingRoom c n) w) \<longrightarrow> s = Mutex"
    using ev by auto
  from shared tables stats wr up down provide_Returns [of c n w] show ?thesis
    by blast
qed

theorem provideTableOrWaitingRoom_frame_witness:
  "\<exists>w'. provideTableOrWaitingRoom sampleConst 2 openWorld = Returns () w'
     \<and> vacantTable sampleConst openWorld
     \<and> assignedTable (fSt w') = assignedTable (fSt openWorld)
     \<and> groupStat (st (fSt w')) = groupStat (st (fSt openWorld))
     \<and> receptionistStat (st (fSt w')) = 1
     \<and> waitForTable (sems w') = [0, 0, 1, 0]
     \<and> groupRecord w' = [0, 0, 2, 0]"
  using provideTableOrWaitingRoom_frame [where c = sampleConst and n = 2 and w = openWorld]
  by (simp add: provideTableOrWaitingRoom_def decideTableOrWait_def openWorld_def vacantTable_def run_defs)

section \<open>The receptionist receives a payment\<close>

lemma receivePayment_keeps_tableDone:
  "keeps (\<lambda>w. tableDone (sems w)) (receivePayment c n)"
  unfolding receivePayment_def decideNextGroup_def
  by (intro keeps_intros) simp_all

lemma receivePayment_emits:
  "emits {e. \<forall>i. e \<noteq> Up (TableDone i)} (receivePayment c n)"
  unfolding receivePayment_def decideNextGroup_def
  by (intro emits_intros) simp_all

text \<open>
  Claim C1.  The claim says that \<^verbatim>\<open>receivePayment(g)\<close> ends by signalling the semaphore
  \<^verbatim>\<open>tableDone[g]\<close> on which the group waits in \<^verbatim>\<open>checkOutAtReception\<close>.  The code
  has no such signal: whatever the world and the group, \<^verbatim>\<open>receivePayment\<close> leaves
  every \<^verbatim>\<open>tableDone\<close> semaphore as it was and emits no \<open>Up\<close> on any of them, so a
  group that waits on \<^verbatim>\<open>tableDone[n]\<close> at value zero still cannot pass afterwards.
\<close>

theorem receivePayment_no_acknowledgement:
  "tableDone (sems (after c (ReceivePayment n) w)) = tableDone (sems w)
   \<and> (\<forall>i. Up (TableDone i) \<notin> set (emitted (receivePayment c n) w))
   \<and> (idx (tableDone (sems w)) n = Some 0 \<longrightarrow>
        semDown (TableDone n) (after c (ReceivePayment n) w)
          = Blocked (TableDone n) (after c (ReceivePayment n) w))"
proof -
  have td: "tableDone (sems (after c (ReceivePayment n) w)) = tableDone (sems w)"
    using keepsD [OF receivePayment_keeps_tableDone [where c = c and n = n], where w = w] by simp
  have ev: "\<forall>i. Up (TableDone i) \<notin> set (emitted (receivePayment c n) w)"
    using emits_emitted [OF receivePayment_emits [where c = c and n = n], where w = w] by auto
  from td ev show ?thesis by (simp add: semDown_def)
qed

theorem receivePayment_no_acknowledgement_witness:
  "idx (tableDone (sems payWorld)) 0 = Some 0
   \<and> tableDone (sems (after sampleConst (ReceivePayment 0) payWorld)) = [0, 0, 0, 0]
   \<and> emitted (receivePayment sampleConst 0) payWorld
       = [Down Mutex, Wr ReceptionistStat, Rd (AssignedTable 0), Wr (AssignedTable 0)]
   \<and> semDown (TableDone 0) (after sampleConst (ReceivePayment 0) payWorld)
       = Blocked (TableDone 0) (after sampleConst (ReceivePayment 0) payWorld)"
  using receivePayment_no_acknowledgement [where c = sampleConst and n = 0 and w = payWorld]
  by (simp add: receivePayment_def decideNextGroup_def payWorld_def emitted_def run_defs)

subsection \<open>The scan for a waiting group\<close>

text \<open>
  When \<^verbatim>\<open>decideNextGroup\<close> returns, it returns the lowest-numbered group recorded as
  waiting, or \<open>- 1\<close> when there is none.
\<close>

lemma scanWaiting_lowest:
  assumes "scanWaiting k i w = Returns x w'" and "0 \<le> i"
  shows "if WAIT \<in> set (take k (drop (nat i) (groupRecord w)))
     then i \<le> x \<and> nat x < nat i + k \<and> groupRecord w ! nat x = WAIT
       \<and> (\<forall>j. nat i \<le> j \<and> j < nat x \<longrightarrow> groupRecord w ! j \<noteq> WAIT)
     else x = - 1"
  using assms
proof (induction k arbitrary: i w)
  case 0
  then show ?case by (simp add: ret_def)
next
  case (Suc k)
  from Suc.prems(1) obtain v w1 where
    r: "rdRec i w = Returns v w1" and
    c: "(if v = WAIT then ret i else scanWaiting k (i + 1)) w1 = Returns x w'"
    by (auto simp: bnd_Returns)
  from r Suc.prems(2) have lt: "nat i < length (groupRecord w)"
    and v: "v = groupRecord w ! nat i" and w1: "w1 = w"
    by (auto simp: rdRec_def idx_def split: if_splits)
  from Suc.prems(2) have n: "nat (i + 1) = Suc (nat i)" by simp
  from lt have d: "drop (nat i) (groupRecord w)
      = groupRecord w ! nat i # drop (Suc (nat i)) (groupRecord w)"
    by (simp add: Cons_nth_drop_Suc)
  show ?case
  proof (cases "v = WAIT")
    case True
    with c have "x = i" by (simp add: ret_def)
    with True v d Suc.prems(2) show ?thesis by simp
  next
    case False
    with c w1 have "scanWaiting k (i + 1) w = Returns x w'" by simp
    from Suc.IH [OF this] Suc.prems(2) n have ih:
      "if WAIT \<in> set (take k (drop (Suc (nat i)) (groupRecord w)))
       then i + 1 \<le> x \<and> nat x < Suc (nat i) + k \<and> groupRecord w ! nat x = WAIT
         \<and> (\<forall>j. Suc (nat i) \<le> j \<and> j < nat x \<longrightarrow> groupRecord w ! j \<noteq> WAIT)
       else x = - 1"
      by (auto split: if_splits)
    show ?thesis
    proof (cases "WAIT \<in> set (take k (drop (Suc (nat i)) (groupRecord w)))")
      case True
      with ih have x: "i + 1 \<le> x" "nat x < Suc (nat i) + k" "groupRecord w ! nat x = WAIT"
        and low: "\<forall>j. Suc (nat i) \<le> j \<and> j < nat x \<longrightarrow> groupRecord w ! j \<noteq> WAIT"
        by simp_all
      have "groupRecord w ! j \<noteq> WAIT" if "nat i \<le> j" "j < nat x" for j
      proof (cases "j = nat i")
        case True
        with False v show ?thesis by simp
      next
        case False
        with that low show ?thesis by simp
      qed
      with True x d show ?thesis by simp
    next
      case no: False
      with ih have "x = - 1" by simp
      with no False v d show ?thesis by simp
    qed
  qed
qed


lemma decideNextGroup_lowest:
  assumes "decideNextGroup c w = Returns x w'"
  shows "if WAIT \<in> set (take (MAXGROUPS c) (groupRecord w))
     then 0 \<le> x \<and> nat x < MAXGROUPS c \<and> groupRecord w ! nat x = WAIT
       \<and> (\<forall>j < nat x. groupRecord w ! j \<noteq> WAIT)
     else x = - 1"
proof -
  from assms obtain w1 y w2 where
    d: "semDown Mutex w = Returns () w1" and
    sc: "scanWaiting (MAXGROUPS c) 0 w1 = Returns y w2" and
    rest: "thn (if y \<noteq> - 1
               then seq [wrRec y ATTABLE, wr (GroupStat y) AT_TABLE]
               else ret ())
            (thn (semUp Mutex) (ret y)) w2 = Returns x w'"
    by (auto simp: decideNextGroup_def thn_Returns bnd_Returns)
  from rest have "x = y"
    by (auto simp: thn_Returns ret_def)
  moreover from d have "groupRecord w1 = groupRecord w"
    by (auto simp: semDown_def split: if_splits)
  moreover note scanWaiting_lowest [OF sc]
  ultimately show ?thesis by (auto split: if_splits)
qed

subsection \<open>The second acquire of the mutex\<close>

text \<open>
  \<^verbatim>\<open>receivePayment\<close> calls \<^verbatim>\<open>decideNextGroup\<close> inside its own critical region, and
  \<^verbatim>\<open>decideNextGroup\<close> starts with a \<^verbatim>\<open>semDown\<close> on the same mutex.
\<close>

lemma decideNextGroup_blocked:
  "mutex (sems w) = 0 \<Longrightarrow> decideNextGroup c w = Blocked Mutex w"
  by (simp add: decideNextGroup_def thn_def bnd_def semDown_def)

lemma receivePayment_Blocked:
  assumes "mutex (sems w) = 1"
    and "idx (assignedTable (fSt w)) n = Some t"
    and "0 \<le> t" and "t < int (length (assignedTable (fSt w)))"
    and "n < int (length (groupRecord w))"
  shows "receivePayment c n w =
     Blocked Mutex
       (w\<lparr>fSt := (fSt w)\<lparr>st := (st (fSt w))\<lparr>receptionistStat := RECVPAY c\<rparr>,
                        assignedTable := (assignedTable (fSt w))[nat t := - 1]\<rparr>,
          sems := (sems w)\<lparr>mutex := 0\<rparr>,
          groupRecord := (groupRecord w)[nat n := DONE],
          trace := trace w @ [Down Mutex, Wr ReceptionistStat, Rd (AssignedTable n),
                              Wr (AssignedTable t)]\<rparr>)"
  using assms
  by (auto simp: receivePayment_def prim_defs thn_def bnd_def idx_def upd_def
      decideNextGroup_blocked split: if_splits)

lemma receivePayment_tables:
  assumes "mutex (sems w) = 1" and "idx (assignedTable (fSt w)) n = Some t"
  shows "assignedTable (fSt (state_of (receivePayment c n w))) =
     (if 0 \<le> t \<and> t < int (length (assignedTable (fSt w)))
      then (assignedTable (fSt w))[nat t := - 1] else assignedTable (fSt w))"
  using assms
  by (auto simp: receivePayment_def prim_defs thn_def bnd_def idx_def upd_def
      decideNextGroup_blocked split: if_splits)

text \<open>
  Claim C5.  The claim says that \<^verbatim>\<open>receivePayment(g)\<close> frees the table \<open>t\<close> that \<open>g\<close>
  holds, that is the \<open>t\<close> with \<^verbatim>\<open>assignedTable[t] = g\<close>, and marks \<open>g\<close> as done.  The
  code marks \<open>g\<close> as done, but the entry it clears is the one whose index it reads at
  \<^verbatim>\<open>assignedTable[g]\<close>: it indexes the array by the group, where
  \<^verbatim>\<open>checkInAtReception\<close> indexes it by the table and stores the group.  Every table
  that \<open>g\<close> holds and whose number is not the value read at \<^verbatim>\<open>assignedTable[g]\<close> is
  still bound to \<open>g\<close> afterwards.
\<close>

theorem receivePayment_frees_by_group_index:
  assumes "mutex (sems w) = 1" and "idx (assignedTable (fSt w)) n = Some t"
  shows "assignedTable (fSt (after c (ReceivePayment n) w)) =
       (if 0 \<le> t \<and> t < int (length (assignedTable (fSt w)))
        then (assignedTable (fSt w))[nat t := - 1] else assignedTable (fSt w))
     \<and> (\<forall>h < length (assignedTable (fSt w)).
          assignedTable (fSt w) ! h = n \<and> int h \<noteq> t \<longrightarrow>
            assignedTable (fSt (after c (ReceivePayment n) w)) ! h = n)
     \<and> (0 \<le> t \<and> t < int (length (assignedTable (fSt w))) \<and> n < int (length (groupRecord w)) \<longrightarrow>
          groupRecord (after c (ReceivePayment n) w) = (groupRecord w)[nat n := DONE])"
proof -
  note tables = receivePayment_tables [OF assms, of c]
  have "\<forall>h < length (assignedTable (fSt w)).
          assignedTable (fSt w) ! h = n \<and> int h \<noteq> t \<longrightarrow>
            assignedTable (fSt (after c (ReceivePayment n) w)) ! h = n"
    using tables by auto
  moreover have "0 \<le> t \<and> t < int (length (assignedTable (fSt w))) \<and> n < int (length (groupRecord w)) \<longrightarrow>
          groupRecord (after c (ReceivePayment n) w) = (groupRecord w)[nat n := DONE]"
    using receivePayment_Blocked [OF assms, of c] by simp
  ultimately show ?thesis using tables by simp
qed

theorem receivePayment_frees_by_group_index_witness:
  "mutex (sems crossWorld) = 1
   \<and> idx (assignedTable (fSt crossWorld)) 0 = Some 2
   \<and> 1 < length (assignedTable (fSt crossWorld))
   \<and> assignedTable (fSt crossWorld) ! 1 = 0 \<and> int 1 \<noteq> 2
   \<and> assignedTable (fSt (after sampleConst (ReceivePayment 0) crossWorld)) = [2, 0, - 1, - 1]
   \<and> assignedTable (fSt (after sampleConst (ReceivePayment 0) crossWorld)) ! 1 = 0
   \<and> groupRecord (after sampleConst (ReceivePayment 0) crossWorld) = [DONE, 0, 2, 0]"
  using receivePayment_frees_by_group_index [where c = sampleConst and n = 0 and w = crossWorld and t = 2]
  by (simp add: crossWorld_def run_defs)

text \<open>
  Claim C6.  The claim says that \<^verbatim>\<open>receivePayment\<close> hands the freed table to the
  lowest-numbered group recorded as waiting, seats it and signals it.  On a binary
  mutex the code never gets there: it stops at the \<^verbatim>\<open>semDown\<close> of
  \<^verbatim>\<open>decideNextGroup\<close> on the mutex it already holds (or before), no status of a group
  changes and no \<^verbatim>\<open>waitForTable\<close> semaphore is raised.
\<close>

theorem receivePayment_stops_at_second_acquire:
  assumes "mutex (sems w) \<le> 1"
  shows "(\<forall>w'. receivePayment c n w \<noteq> Returns () w')
     \<and> groupStat (st (fSt (after c (ReceivePayment n) w))) = groupStat (st (fSt w))
     \<and> waitForTable (sems (after c (ReceivePayment n) w)) = waitForTable (sems w)"
proof (cases "mutex (sems w) = 0")
  case True
  then have "receivePayment c n w = Blocked Mutex w"
    by (simp add: receivePayment_def thn_def bnd_def semDown_def)
  then show ?thesis by simp
next
  case False
  with assms have "mutex (sems w) = 1" by simp
  then show ?thesis
    by (simp add: receivePayment_def prim_defs thn_def bnd_def idx_def upd_def
        decideNextGroup_blocked split: option.splits)
qed

theorem receivePayment_stops_at_second_acquire_witness:
  "mutex (sems payWorld) \<le> 1
   \<and> (\<exists>w'. receivePayment sampleConst 0 payWorld = Blocked Mutex w'
        \<and> assignedTable (fSt w') = [- 1, 1, - 1, - 1]
        \<and> groupRecord w' = [DONE, ATTABLE, WAIT, WAIT]
        \<and> groupStat (st (fSt w')) = [6, 5, WAITING, WAITING]
        \<and> waitForTable (sems w') = [0, 0, 0, 0])"
  using receivePayment_stops_at_second_acquire [where c = sampleConst and n = 0 and w = payWorld]
  by (simp add: receivePayment_def decideNextGroup_def payWorld_def run_defs)

section \<open>The receptionist waits for a request\<close>

text \<open>
  Claim C2.  The claim says that \<^verbatim>\<open>waitForGroup\<close> blocks until a request is in the
  mailbox \<^verbatim>\<open>receptionistRequest\<close>, consumes it and returns it.  The code does none of
  this: once it has the mutex it sets the receptionist's status and returns the request
  it was initialised with, type 0 and group 0; it neither reads nor clears the mailbox
  and waits on no semaphore other than the mutex.
\<close>

theorem waitForGroup_ignores_mailbox:
  "0 < mutex (sems w) \<Longrightarrow>
     waitForGroup w =
       Returns \<lparr>reqType = 0, reqGroup = 0\<rparr>
         (w\<lparr>fSt := (fSt w)\<lparr>st := (st (fSt w))\<lparr>receptionistStat := WAIT\<rparr>\<rparr>,
            trace := trace w @ [Down Mutex, Wr ReceptionistStat, SaveState, Up Mutex]\<rparr>)"
  by (simp add: waitForGroup_def prim_defs thn_def bnd_def ret_def)

theorem waitForGroup_ignores_mailbox_witness:
  "0 < mutex (sems requestWorld)
   \<and> receptionistRequest (fSt requestWorld) = \<lparr>reqType = TABLEREQ sampleConst, reqGroup = 3\<rparr>
   \<and> (\<exists>w'. waitForGroup requestWorld = Returns \<lparr>reqType = 0, reqGroup = 0\<rparr> w'
         \<and> receptionistRequest (fSt w') = \<lparr>reqType = TABLEREQ sampleConst, reqGroup = 3\<rparr>
         \<and> sems w' = sems requestWorld
         \<and> waits (emitted waitForGroup requestWorld) = [])"
proof -
  have m: "0 < mutex (sems requestWorld)"
    by (simp add: requestWorld_def checkInAtReception_def openWorld_def run_defs)
  have r: "receptionistRequest (fSt requestWorld) = \<lparr>reqType = TABLEREQ sampleConst, reqGroup = 3\<rparr>"
    by (simp add: requestWorld_def checkInAtReception_def openWorld_def run_defs)
  from waitForGroup_ignores_mailbox [OF m] m r show ?thesis
    by (simp add: emitted_def)
qed

section \<open>The group checks in\<close>

subsection \<open>The loop over the tables\<close>

lemma takeVacant_none:
  assumes "- 1 \<notin> set (take k (drop (nat i) (assignedTable (fSt w))))"
    and "0 \<le> i" and "nat i + k \<le> length (assignedTable (fSt w))"
  shows "\<exists>es. takeVacant g k i w = Returns False (w\<lparr>trace := trace w @ es\<rparr>)"
  using assms
proof (induction k arbitrary: i w)
  case 0
  have "takeVacant g 0 i w = Returns False (w\<lparr>trace := trace w @ []\<rparr>)"
    by (simp add: ret_def)
  then show ?case by blast
next
  case (Suc k)
  let ?xs = "assignedTable (fSt w)"
  let ?w1 = "w\<lparr>trace := trace w @ [Rd (AssignedTable i)]\<rparr>"
  from Suc.prems have lt: "nat i < length ?xs" by simp
  then have d: "drop (nat i) ?xs = ?xs ! nat i # drop (Suc (nat i)) ?xs"
    by (simp add: Cons_nth_drop_Suc)
  from Suc.prems(2) have n: "nat (i + 1) = Suc (nat i)" by simp
  from Suc.prems(1) d have ne: "?xs ! nat i \<noteq> - 1"
    and rest: "- 1 \<notin> set (take k (drop (nat (i + 1)) (assignedTable (fSt ?w1))))"
    by (simp_all add: n)
  from lt Suc.prems(2) have r: "rd (AssignedTable i) w = Returns (?xs ! nat i) ?w1"
    by (simp add: rd_def idx_def)
  from Suc.prems n have "0 \<le> i + 1" "nat (i + 1) + k \<le> length (assignedTable (fSt ?w1))"
    by simp_all
  from Suc.IH [OF rest this] obtain es where
    "takeVacant g k (i + 1) ?w1 = Returns False (?w1\<lparr>trace := trace ?w1 @ es\<rparr>)"
    by blast
  with r ne have "takeVacant g (Suc k) i w
      = Returns False (w\<lparr>trace := trace w @ (Rd (AssignedTable i) # es)\<rparr>)"
    by (simp add: bnd_def)
  then show ?case by blast
qed

lemma takeVacant_some:
  assumes "- 1 \<in> set (take k (drop (nat i) (assignedTable (fSt w))))"
    and "0 \<le> i" and "nat i + k \<le> length (assignedTable (fSt w))"
    and "0 \<le> g" and "g < int (length (groupStat (st (fSt w))))"
  shows "\<exists>es t. takeVacant g k i w =
      Returns True
        (w\<lparr>fSt := (fSt w)\<lparr>st := (st (fSt w))\<lparr>groupStat :=
                                   (groupStat (st (fSt w)))[nat g := AT_TABLE]\<rparr>,
                         assignedTable := (assignedTable (fSt w))[t := g]\<rparr>,
           trace := trace w @ es\<rparr>)
      \<and> nat i \<le> t \<and> t < nat i + k \<and> assignedTable (fSt w) ! t = - 1"
  using assms
proof (induction k arbitrary: i w)
  case 0
  then show ?case by simp
next
  case (Suc k)
  let ?xs = "assignedTable (fSt w)"
  let ?w1 = "w\<lparr>trace := trace w @ [Rd (AssignedTable i)]\<rparr>"
  from Suc.prems have lt: "nat i < length ?xs" by simp
  then have d: "drop (nat i) ?xs = ?xs ! nat i # drop (Suc (nat i)) ?xs"
    by (simp add: Cons_nth_drop_Suc)
  from Suc.prems(2) have n: "nat (i + 1) = Suc (nat i)" by simp
  from lt Suc.prems(2) have r: "rd (AssignedTable i) w = Returns (?xs ! nat i) ?w1"
    by (simp add: rd_def idx_def)
  show ?case
  proof (cases "?xs ! nat i = - 1")
    case True
    with r lt Suc.prems(2,4,5) have "takeVacant g (Suc k) i w =
      Returns True
        (w\<lparr>fSt := (fSt w)\<lparr>st := (st (fSt w))\<lparr>groupStat :=
                                   (groupStat (st (fSt w)))[nat g := AT_TABLE]\<rparr>,
                         assignedTable := ?xs[nat i := g]\<rparr>,
           trace := trace w @ [Rd (AssignedTable i), Wr (AssignedTable i), Wr (GroupStat g)]\<rparr>)"
      by (simp add: bnd_def thn_def ret_def wr_def upd_def)
    with True show ?thesis by force
  next
    case False
    with Suc.prems(1) d have
      rest: "- 1 \<in> set (take k (drop (nat (i + 1)) (assignedTable (fSt ?w1))))"
      by (simp add: n)
    from Suc.prems n have "0 \<le> i + 1" "nat (i + 1) + k \<le> length (assignedTable (fSt ?w1))"
      "0 \<le> g" "g < int (length (groupStat (st (fSt ?w1))))"
      by simp_all
    from Suc.IH [OF rest this] obtain es t where
      tv: "takeVacant g k (i + 1) ?w1 =
        Returns True
          (?w1\<lparr>fSt := (fSt ?w1)\<lparr>st := (st (fSt ?w1))\<lparr>groupStat :=
                                   (groupStat (st (fSt ?w1)))[nat g := AT_TABLE]\<rparr>,
                         assignedTable := (assignedTable (fSt ?w1))[t := g]\<rparr>,
             trace := trace ?w1 @ es\<rparr>)"
      and t: "nat (i + 1) \<le> t" "t < nat (i + 1) + k" "assignedTable (fSt ?w1) ! t = - 1"
      by blast
    from r False tv have "takeVacant g (Suc k) i w =
      Returns True
        (w\<lparr>fSt := (fSt w)\<lparr>st := (st (fSt w))\<lparr>groupStat :=
                                   (groupStat (st (fSt w)))[nat g := AT_TABLE]\<rparr>,
                         assignedTable := ?xs[t := g]\<rparr>,
           trace := trace w @ (Rd (AssignedTable i) # es)\<rparr>)"
      by (simp add: bnd_def)
    with t n show ?thesis by force
  qed
qed

lemma emits_takeVacant:
  "(\<And>i. Rd (AssignedTable i) \<in> A) \<Longrightarrow> (\<And>i. Wr (AssignedTable i) \<in> A) \<Longrightarrow> Wr (GroupStat g) \<in> A
   \<Longrightarrow> emits A (takeVacant g k i)"
  by (induction k arbitrary: i) (auto intro!: emits_ret emits_bnd emits_thn emits_rd emits_wr)

lemma waits_Nil: "set es \<subseteq> {e. \<forall>s. e = Down s \<longrightarrow> s = Mutex} \<Longrightarrow> waits es = []"
proof (induction es)
  case Nil
  then show ?case by simp
next
  case (Cons e es)
  then show ?case by (cases e) auto
qed

lemma checkIn_emits:
  "emits {e. \<forall>s. e = Down s \<longrightarrow> s = Mutex} (checkInAtReception c g)"
  unfolding checkInAtReception_def
  by (intro emits_intros emits_takeVacant) simp_all

lemma checkIn_start:
  assumes "0 < mutex (sems w)" and "0 \<le> g" and "g < int (length (groupStat (st (fSt w))))"
  shows "\<exists>w3. checkInAtReception c g w =
       bnd (takeVacant g (NUMTABLES c) 0) (\<lambda>isTableAvailable.
                 seq [if isTableAvailable then wr (GroupStat g) AT_TABLE
                      else wr (GroupStat g) WAITING,
                      saveState,
                      semUp Mutex]) w3
     \<and> assignedTable (fSt w3) = assignedTable (fSt w)
     \<and> groupStat (st (fSt w3)) = (groupStat (st (fSt w)))[nat g := ATRECEPTION c]
     \<and> groupsWaiting (fSt w3) = groupsWaiting (fSt w) + 1
     \<and> sems w3 = (sems w)\<lparr>mutex := mutex (sems w) - 1\<rparr>"
  using assms
  apply (simp add: checkInAtReception_def prim_defs thn_def upd_def bnd_ret bnd_assoc
      bnd_def [of "semDown Mutex"] bnd_def [of "rd GroupsWaiting"] bnd_def [of "wr _ _"]
      bnd_def [of saveState])
  apply (rule exI, rule conjI, rule refl)
  apply simp
  done

lemma checkIn_Returns:
  assumes "0 < mutex (sems w)"
    and "0 \<le> g" and "g < int (length (groupStat (st (fSt w))))"
    and "NUMTABLES c \<le> length (assignedTable (fSt w))"
  shows "\<exists>w'. checkInAtReception c g w = Returns () w'
     \<and> sems w' = sems w
     \<and> waits (emitted (checkInAtReception c g) w) = []
     \<and> (if vacantTable c w
         then (\<exists>t < NUMTABLES c. assignedTable (fSt w) ! t = - 1
                 \<and> assignedTable (fSt w') = (assignedTable (fSt w))[t := g])
              \<and> groupStat (st (fSt w')) = (groupStat (st (fSt w)))[nat g := AT_TABLE]
         else assignedTable (fSt w') = assignedTable (fSt w)
              \<and> groupStat (st (fSt w')) = (groupStat (st (fSt w)))[nat g := WAITING])"
proof -
  from checkIn_start [OF assms(1-3), of c] obtain w3 where
    start: "checkInAtReception c g w =
       bnd (takeVacant g (NUMTABLES c) 0) (\<lambda>isTableAvailable.
                 seq [if isTableAvailable then wr (GroupStat g) AT_TABLE
                      else wr (GroupStat g) WAITING,
                      saveState,
                      semUp Mutex]) w3"
    and w3: "assignedTable (fSt w3) = assignedTable (fSt w)"
      "groupStat (st (fSt w3)) = (groupStat (st (fSt w)))[nat g := ATRECEPTION c]"
      "sems w3 = (sems w)\<lparr>mutex := mutex (sems w) - 1\<rparr>"
    by blast
  have w: "waits (emitted (checkInAtReception c g) w) = []"
    using emits_emitted [OF checkIn_emits [where c = c and g = g], where w = w]
    by (rule waits_Nil)
  have b: "0 \<le> (0::int)" "nat 0 + NUMTABLES c \<le> length (assignedTable (fSt w3))"
    "0 \<le> g" "g < int (length (groupStat (st (fSt w3))))"
    using assms w3 by simp_all
  show ?thesis
  proof (cases "vacantTable c w")
    case True
    with w3 have "- 1 \<in> set (take (NUMTABLES c) (drop (nat 0) (assignedTable (fSt w3))))"
      by (simp add: vacantTable_def)
    from takeVacant_some [OF this b] obtain es t where
      tv: "takeVacant g (NUMTABLES c) 0 w3 =
        Returns True
          (w3\<lparr>fSt := (fSt w3)\<lparr>st := (st (fSt w3))\<lparr>groupStat :=
                                   (groupStat (st (fSt w3)))[nat g := AT_TABLE]\<rparr>,
                         assignedTable := (assignedTable (fSt w3))[t := g]\<rparr>,
             trace := trace w3 @ es\<rparr>)"
      and t: "t < nat 0 + NUMTABLES c" "assignedTable (fSt w3) ! t = - 1"
      by blast
    from start tv assms(1-3) w3 have "\<exists>w'. checkInAtReception c g w = Returns () w'
        \<and> sems w' = sems w
        \<and> assignedTable (fSt w') = (assignedTable (fSt w))[t := g]
        \<and> groupStat (st (fSt w')) = (groupStat (st (fSt w)))[nat g := AT_TABLE]"
      by (simp add: prim_defs thn_def bnd_def upd_def ret_def)
    with True t w w3 show ?thesis by auto
  next
    case False
    with w3 have "- 1 \<notin> set (take (NUMTABLES c) (drop (nat 0) (assignedTable (fSt w3))))"
      by (simp add: vacantTable_def)
    from takeVacant_none [OF this b(1,2)] obtain es where
      tv: "takeVacant g (NUMTABLES c) 0 w3 = Returns False (w3\<lparr>trace := trace w3 @ es\<rparr>)"
      by blast
    from start tv assms(1-3) w3 have "\<exists>w'. checkInAtReception c g w = Returns () w'
        \<and> sems w' = sems w
        \<and> assignedTable (fSt w') = assignedTable (fSt w)
        \<and> groupStat (st (fSt w')) = (groupStat (st (fSt w)))[nat g := WAITING]"
      by (simp add: prim_defs thn_def bnd_def upd_def ret_def)
    with False w show ?thesis by auto
  qed
qed

text \<open>
  Claim C3.  The claim says that the group, having posted its request, waits on its
  \<^verbatim>\<open>waitForTable\<close> semaphore unless it sees itself seated, that the receptionist binds
  it to a table, and that it leaves the check-in seated at exactly one table.  In the
  code \<^verbatim>\<open>checkInAtReception\<close> never waits on any semaphore besides the mutex: it
  returns in all cases.  When a table is vacant the group writes itself into
  \<^verbatim>\<open>assignedTable\<close>; when none is vacant it returns with status \<^verbatim>\<open>WAITING\<close> and no
  table.
\<close>

theorem checkIn_without_receptionist:
  assumes "0 < mutex (sems w)"
    and "0 \<le> g" and "g < int (length (groupStat (st (fSt w))))"
    and "NUMTABLES c \<le> length (assignedTable (fSt w))"
  shows "\<exists>w'. checkInAtReception c g w = Returns () w'
     \<and> sems w' = sems w
     \<and> waits (emitted (checkInAtReception c g) w) = []
     \<and> (if vacantTable c w
         then (\<exists>t < NUMTABLES c. assignedTable (fSt w) ! t = - 1
                 \<and> assignedTable (fSt w') = (assignedTable (fSt w))[t := g])
              \<and> groupStat (st (fSt w')) = (groupStat (st (fSt w)))[nat g := AT_TABLE]
         else assignedTable (fSt w') = assignedTable (fSt w)
              \<and> groupStat (st (fSt w')) = (groupStat (st (fSt w)))[nat g := WAITING])"
  using assms by (rule checkIn_Returns)

theorem checkIn_without_receptionist_witness:
  "0 < mutex (sems fullWorld)
   \<and> 2 < int (length (groupStat (st (fSt fullWorld))))
   \<and> NUMTABLES sampleConst \<le> length (assignedTable (fSt fullWorld))
   \<and> \<not> vacantTable sampleConst fullWorld
   \<and> (\<exists>w'. checkInAtReception sampleConst 2 fullWorld = Returns () w'
         \<and> sems w' = sems fullWorld
         \<and> waits (emitted (checkInAtReception sampleConst 2) fullWorld) = []
         \<and> assignedTable (fSt w') = [0, 1, - 1, - 1]
         \<and> groupStat (st (fSt w')) = [5, 5, WAITING, 0])"
  using checkIn_without_receptionist [where c = sampleConst and g = 2 and w = fullWorld]
  by (simp add: checkInAtReception_def fullWorld_def vacantTable_def emitted_def run_defs)

section \<open>The waiter waits for a client or the chef\<close>

subsection \<open>A pass of the loop that finds nothing\<close>

lemma scanOrders_none:
  assumes "FOOD_REQUEST c \<notin> set (take k (drop (nat i) (groupStat (st (fSt w)))))"
    and "0 \<le> i" and "nat i + k \<le> length (groupStat (st (fSt w)))"
  shows "\<exists>es. scanOrders c k i w = Returns None (w\<lparr>trace := trace w @ es\<rparr>) \<and> set es \<subseteq> range Rd"
  using assms
proof (induction k arbitrary: i w)
  case 0
  have "scanOrders c 0 i w = Returns None (w\<lparr>trace := trace w @ []\<rparr>) \<and> set [] \<subseteq> range Rd"
    by (simp add: ret_def)
  then show ?case by (rule exI)
next
  case (Suc k)
  let ?xs = "groupStat (st (fSt w))"
  let ?w1 = "w\<lparr>trace := trace w @ [Rd (GroupStat i)]\<rparr>"
  from Suc.prems have lt: "nat i < length ?xs" by simp
  then have d: "drop (nat i) ?xs = ?xs ! nat i # drop (Suc (nat i)) ?xs"
    by (simp add: Cons_nth_drop_Suc)
  from Suc.prems(2) have n: "nat (i + 1) = Suc (nat i)" by simp
  from Suc.prems(1) d have ne: "?xs ! nat i \<noteq> FOOD_REQUEST c"
    and rest: "FOOD_REQUEST c \<notin> set (take k (drop (nat (i + 1)) (groupStat (st (fSt ?w1)))))"
    by (simp_all add: n)
  from lt Suc.prems(2) have r: "rd (GroupStat i) w = Returns (?xs ! nat i) ?w1"
    by (simp add: rd_def idx_def)
  from Suc.prems n have "0 \<le> i + 1" "nat (i + 1) + k \<le> length (groupStat (st (fSt ?w1)))"
    by simp_all
  from Suc.IH [OF rest this] obtain es where
    "scanOrders c k (i + 1) ?w1 = Returns None (?w1\<lparr>trace := trace ?w1 @ es\<rparr>)"
    "set es \<subseteq> range Rd"
    by blast
  with r ne have "scanOrders c (Suc k) i w
      = Returns None (w\<lparr>trace := trace w @ (Rd (GroupStat i) # es)\<rparr>)"
    "set (Rd (GroupStat i) # es) \<subseteq> range Rd"
    by (simp_all add: bnd_def)
  then show ?case by blast
qed

lemma waiterPoll_idle:
  assumes "0 < mutex (sems w)" and "nothingToDo c w"
    and "MAXGROUPS c \<le> length (groupStat (st (fSt w)))"
  shows "\<exists>w1 es. waiterPoll c w = Returns None w1
     \<and> fSt w1 = fSt w \<and> sems w1 = sems w \<and> groupRecord w1 = groupRecord w
     \<and> trace w1 = trace w @ Down Mutex # es @ [Rd ChefStat, Up Mutex]
     \<and> set es \<subseteq> range Rd"
proof -
  let ?wa = "w\<lparr>sems := semput Mutex (mutex (sems w) - 1) (sems w), trace := trace w @ [Down Mutex]\<rparr>"
  from assms(1) have d: "semDown Mutex w = Returns () ?wa"
    by (simp add: semDown_def)
  from assms(2,3) have
    "FOOD_REQUEST c \<notin> set (take (MAXGROUPS c) (drop (nat 0) (groupStat (st (fSt ?wa)))))"
    "0 \<le> (0::int)" "nat 0 + MAXGROUPS c \<le> length (groupStat (st (fSt ?wa)))"
    by (simp_all add: nothingToDo_def)
  from scanOrders_none [OF this] obtain es where
    sc: "scanOrders c (MAXGROUPS c) 0 ?wa = Returns None (?wa\<lparr>trace := trace ?wa @ es\<rparr>)"
    and es: "set es \<subseteq> range Rd"
    by blast
  from assms(2) have chef: "chefStat (st (fSt w)) \<noteq> FOODREADY c"
    by (simp add: nothingToDo_def)
  have "waiterPoll c w = bnd (scanOrders c (MAXGROUPS c) 0) (\<lambda>found.
          bnd (case found of
                 Some req \<Rightarrow> ret (Some req)
               | None \<Rightarrow>
                   bnd (rd ChefStat) (\<lambda>chef.
                     if chef = FOODREADY c
                     then bnd (rd FoodGroup) (\<lambda>g.
                            ret (Some \<lparr>reqType = FOODREADY c, reqGroup = g\<rparr>))
                     else ret None))
            (\<lambda>found'. thn (semUp Mutex) (ret found'))) ?wa"
    using d by (simp add: waiterPoll_def thn_def bnd_def [of "semDown Mutex"])
  also have "\<dots> = Returns None
      (w\<lparr>trace := trace w @ Down Mutex # es @ [Rd ChefStat, Up Mutex]\<rparr>)"
    using sc chef assms(1)
    by (simp add: bnd_def [of "scanOrders c (MAXGROUPS c) 0"])
      (simp add: bnd_def thn_def ret_def rd_def semUp_def)
  finally show ?thesis using es by force
qed

lemma count_down_reads: "set es \<subseteq> range Rd \<Longrightarrow> filter (\<lambda>e. e = Down Mutex) es = []"
  by (induction es) auto

lemma waits_reads: "set es \<subseteq> range Rd \<Longrightarrow> waits es = []"
  by (induction es) auto

lemma waits_append: "waits (es @ es') = waits es @ waits es'"
proof (induction es)
  case Nil
  then show ?case by simp
next
  case (Cons e es)
  then show ?case by (cases e) auto
qed

lemma guarded_reads: "set es \<subseteq> range Rd \<Longrightarrow> guarded True (es @ es') = guarded True es'"
  by (induction es) auto

lemma waitLoop_idle:
  assumes "0 < mutex (sems w)" and "nothingToDo c w"
    and "MAXGROUPS c \<le> length (groupStat (st (fSt w)))"
  shows "\<exists>w' es. waitLoop c fuel w = OutOfFuel w' \<and> sems w' = sems w
     \<and> trace w' = trace w @ es \<and> waits es = []
     \<and> length (filter (\<lambda>e. e = Down Mutex) es) = fuel
     \<and> (0 < fuel \<longrightarrow> \<not> guarded False es)"
  using assms
proof (induction fuel arbitrary: w)
  case 0
  have "waitLoop c 0 w = OutOfFuel w" by simp
  then show ?case by simp
next
  case (Suc fuel)
  from waiterPoll_idle [OF Suc.prems] obtain w1 es where
    p: "waiterPoll c w = Returns None w1" and
    w1: "fSt w1 = fSt w" "sems w1 = sems w"
        "trace w1 = trace w @ Down Mutex # es @ [Rd ChefStat, Up Mutex]" and
    es: "set es \<subseteq> range Rd"
    by blast
  let ?w2 = "w1\<lparr>fSt := (fSt w1)\<lparr>st := (st (fSt w1))\<lparr>waiterStat := WAIT_FOR_REQUEST c\<rparr>\<rparr>,
                 trace := trace w1 @ [Wr WaiterStat]\<rparr>"
  have wr: "wr WaiterStat (WAIT_FOR_REQUEST c) w1 = Returns () ?w2"
    by (simp add: wr_def)
  from Suc.prems w1 have "0 < mutex (sems ?w2)" "nothingToDo c ?w2"
    "MAXGROUPS c \<le> length (groupStat (st (fSt ?w2)))"
    by (simp_all add: nothingToDo_def)
  from Suc.IH [OF this] obtain w' es' where
    l: "waitLoop c fuel ?w2 = OutOfFuel w'" and
    w': "sems w' = sems ?w2" "trace w' = trace ?w2 @ es'" "waits es' = []"
        "length (filter (\<lambda>e. e = Down Mutex) es') = fuel"
    by blast
  let ?es = "Down Mutex # es @ [Rd ChefStat, Up Mutex, Wr WaiterStat] @ es'"
  from p wr l have "waitLoop c (Suc fuel) w = OutOfFuel w'"
    by (simp add: bnd_def thn_def)
  moreover from w' w1 have "sems w' = sems w" by simp
  moreover from w' w1 have "trace w' = trace w @ ?es" by simp
  moreover from w' es have "waits ?es = []"
    by (simp add: waits_append waits_reads)
  moreover from w' es have "length (filter (\<lambda>e. e = Down Mutex) ?es) = Suc fuel"
    by (simp add: count_down_reads)
  moreover from es have "\<not> guarded False ?es"
    by (simp add: guarded_reads)
  ultimately show ?case by blast
qed

text \<open>
  Claim C8.  The claim says that the waiter, when there is neither an order nor food
  ready, blocks on a semaphore that a new order or a ready signal raises.  The code has
  no such wait: a pass that finds nothing releases the mutex, writes the waiter's status
  and starts the next pass.  As long as nothing changes, the loop is still running
  whatever the number of passes allowed; it has taken the mutex once per pass and waited
  on no other semaphore.
\<close>

theorem waiter_polls_without_waiting:
  assumes "0 < mutex (sems w)" and "nothingToDo c w"
    and "MAXGROUPS c \<le> length (groupStat (st (fSt w)))"
  shows "\<exists>w'. waitForClientOrChef c fuel w = OutOfFuel w'
     \<and> sems w' = sems w
     \<and> waits (emitted (waitForClientOrChef c fuel) w) = []
     \<and> length (filter (\<lambda>e. e = Down Mutex) (emitted (waitForClientOrChef c fuel) w)) = fuel"
proof -
  from waitLoop_idle [OF assms, of fuel] obtain w' es where
    "waitLoop c fuel w = OutOfFuel w'" "sems w' = sems w" "trace w' = trace w @ es"
    "waits es = []" "length (filter (\<lambda>e. e = Down Mutex) es) = fuel"
    by blast
  then show ?thesis
    by (simp add: waitForClientOrChef_def bnd_def emitted_def)
qed

theorem waiter_polls_without_waiting_witness:
  "0 < mutex (sems openWorld) \<and> nothingToDo sampleConst openWorld
   \<and> MAXGROUPS sampleConst \<le> length (groupStat (st (fSt openWorld)))
   \<and> (\<exists>w'. waitForClientOrChef sampleConst 2 openWorld = OutOfFuel w'
        \<and> sems w' = sems openWorld
        \<and> emitted (waitForClientOrChef sampleConst 2) openWorld =
            [Down Mutex, Rd (GroupStat 0), Rd (GroupStat 1), Rd (GroupStat 2), Rd (GroupStat 3),
             Rd ChefStat, Up Mutex, Wr WaiterStat,
             Down Mutex, Rd (GroupStat 0), Rd (GroupStat 1), Rd (GroupStat 2), Rd (GroupStat 3),
             Rd ChefStat, Up Mutex, Wr WaiterStat])"
  using waiter_polls_without_waiting [where c = sampleConst and w = openWorld and fuel = 2]
  by (simp add: waitForClientOrChef_def waiterPoll_def openWorld_def nothingToDo_def emitted_def
      run_defs)


section \<open>Accesses outside the critical region\<close>

subsection \<open>Operations that keep the discipline of the mutex\<close>

lemma checkIn_disciplined: "disciplined False (checkInAtReception c g) False"
  unfolding checkInAtReception_def
  by (rule disciplined_intros | simp)+

lemma orderFood_disciplined: "disciplined False (orderFood c g) False"
  unfolding orderFood_def
  by (rule disciplined_intros | simp)+

lemma checkOut_disciplined: "disciplined False (checkOutAtReception c g) False"
  unfolding checkOutAtReception_def
  by (rule disciplined_intros | simp)+

lemma waitForGroup_disciplined: "disciplined False waitForGroup False"
  unfolding waitForGroup_def
  by (rule disciplined_intros | simp)+

lemma provide_disciplined: "disciplined False (provideTableOrWaitingRoom c n) False"
  unfolding provideTableOrWaitingRoom_def decideTableOrWait_def
  by (rule disciplined_intros | simp)+

lemma informChef_disciplined: "disciplined False (informChef c n) False"
  unfolding informChef_def
  by (rule disciplined_intros | simp)+

subsection \<open>Operations that leave the critical region too early\<close>

lemma emits_UNIV_trace:
  assumes "emits UNIV m"
  shows "\<exists>es. trace (state_of (m w)) = trace w @ es"
  using assms unfolding emits_def by blast

lemma waitFood_start:
  assumes "0 < mutex (sems w)" and "0 \<le> g" and "g < int (length (groupStat (st (fSt w))))"
    and "g < int (length (assignedTable (fSt w)))"
  shows "waitFood c g w =
     seq [semDown (FoodArrived (assignedTable (fSt w) ! nat g)), semDown Mutex,
          wr (GroupStat g) (EAT c), saveState, semUp Mutex]
       (w\<lparr>fSt := (fSt w)\<lparr>st := (st (fSt w))\<lparr>groupStat :=
                         (groupStat (st (fSt w)))[nat g := WAIT_FOR_FOOD c]\<rparr>\<rparr>,
          trace := trace w @ [Down Mutex, Wr (GroupStat g), SaveState, Up Mutex,
                              Rd (AssignedTable g)]\<rparr>)"
  using assms
  by (simp add: waitFood_def rd_def wr_def saveState_def semDown_def [of Mutex]
      semUp_def [of Mutex] thn_def upd_def idx_def bnd_ret bnd_assoc
      bnd_def [of "semDown Mutex"] bnd_def [of "semUp Mutex"] bnd_def [of "rd (AssignedTable g)"]
      bnd_def [of "wr (GroupStat g) (WAIT_FOR_FOOD c)"] bnd_def [of saveState])

lemma waitFood_trace:
  assumes "0 < mutex (sems w)" and "0 \<le> g" and "g < int (length (groupStat (st (fSt w))))"
    and "g < int (length (assignedTable (fSt w)))"
  shows "\<exists>es. emitted (waitFood c g) w =
           [Down Mutex, Wr (GroupStat g), SaveState, Up Mutex, Rd (AssignedTable g)] @ es"
proof -
  let ?K = "seq [semDown (FoodArrived (assignedTable (fSt w) ! nat g)), semDown Mutex,
               wr (GroupStat g) (EAT c), saveState, semUp Mutex]"
  let ?w5 = "w\<lparr>fSt := (fSt w)\<lparr>st := (st (fSt w))\<lparr>groupStat :=
                         (groupStat (st (fSt w)))[nat g := WAIT_FOR_FOOD c]\<rparr>\<rparr>,
          trace := trace w @ [Down Mutex, Wr (GroupStat g), SaveState, Up Mutex,
                              Rd (AssignedTable g)]\<rparr>"
  have "emits UNIV ?K"
    by (intro emits_intros) simp_all
  from emits_UNIV_trace [OF this, of ?w5] obtain es where
    "trace (state_of (?K ?w5)) = trace ?w5 @ es"
    by blast
  with waitFood_start [OF assms, of c] show ?thesis by (simp add: emitted_def)
qed

lemma takeFoodToTable_start:
  assumes "0 < mutex (sems w)" and "0 \<le> g" and "g < int (length (assignedTable (fSt w)))"
  shows "takeFoodToTable c g w =
     semUp (FoodArrived (assignedTable (fSt w) ! nat g))
       (w\<lparr>fSt := (fSt w)\<lparr>st := (st (fSt w))\<lparr>waiterStat := TAKE_TO_TABLE c\<rparr>\<rparr>,
          trace := trace w @ [Down Mutex, Wr WaiterStat, SaveState, Up Mutex,
                              Rd (AssignedTable g)]\<rparr>)"
  using assms
  by (simp add: takeFoodToTable_def rd_def wr_def saveState_def semDown_def [of Mutex]
      semUp_def [of Mutex] thn_def upd_def idx_def bnd_ret bnd_assoc
      bnd_def [of "semDown Mutex"] bnd_def [of "semUp Mutex"] bnd_def [of "rd (AssignedTable g)"]
      bnd_def [of "wr WaiterStat (TAKE_TO_TABLE c)"] bnd_def [of saveState])

lemma takeFoodToTable_trace:
  assumes "0 < mutex (sems w)" and "0 \<le> g" and "g < int (length (assignedTable (fSt w)))"
  shows "\<exists>es. emitted (takeFoodToTable c g) w =
           [Down Mutex, Wr WaiterStat, SaveState, Up Mutex, Rd (AssignedTable g)] @ es"
proof -
  let ?K = "semUp (FoodArrived (assignedTable (fSt w) ! nat g))"
  let ?w5 = "w\<lparr>fSt := (fSt w)\<lparr>st := (st (fSt w))\<lparr>waiterStat := TAKE_TO_TABLE c\<rparr>\<rparr>,
          trace := trace w @ [Down Mutex, Wr WaiterStat, SaveState, Up Mutex,
                              Rd (AssignedTable g)]\<rparr>"
  have "emits UNIV ?K"
    by (intro emits_intros) simp_all
  from emits_UNIV_trace [OF this, of ?w5] obtain es where
    "trace (state_of (?K ?w5)) = trace ?w5 @ es"
    by blast
  with takeFoodToTable_start [OF assms, of c] show ?thesis by (simp add: emitted_def)
qed

text \<open>
  Claim C7.  The claim says that every access to a field of the shared state lies
  between an acquire and a release of the mutex.  Three operations break this:
  \<^verbatim>\<open>waitFood\<close> and \<^verbatim>\<open>takeFoodToTable\<close> read \<^verbatim>\<open>assignedTable\<close> after they have released
  the mutex, and \<^verbatim>\<open>waitForClientOrChef\<close> writes the waiter's status after it has
  released the mutex, on every pass that finds nothing.
\<close>

theorem shared_access_outside_the_mutex:
  assumes "0 < mutex (sems w)"
    and "0 \<le> g" and "g < int (length (groupStat (st (fSt w))))"
    and "g < int (length (assignedTable (fSt w)))"
    and "nothingToDo c w" and "MAXGROUPS c \<le> length (groupStat (st (fSt w)))"
  shows "\<not> guarded False (emitted (waitFood c g) w)
     \<and> \<not> guarded False (emitted (takeFoodToTable c g) w)
     \<and> \<not> guarded False (emitted (waitForClientOrChef c (Suc fuel)) w)"
proof -
  from waitFood_trace [OF assms(1-4), of c] have a: "\<not> guarded False (emitted (waitFood c g) w)"
    by auto
  from takeFoodToTable_trace [OF assms(1,2,4), of c] have
    b: "\<not> guarded False (emitted (takeFoodToTable c g) w)"
    by auto
  from waitLoop_idle [OF assms(1,5,6), of "Suc fuel"] obtain w' es where
    "waitLoop c (Suc fuel) w = OutOfFuel w'" "trace w' = trace w @ es" "\<not> guarded False es"
    by auto
  then have "\<not> guarded False (emitted (waitForClientOrChef c (Suc fuel)) w)"
    by (simp add: waitForClientOrChef_def bnd_def emitted_def)
  with a b show ?thesis by simp
qed

theorem shared_access_outside_the_mutex_witness:
  "0 < mutex (sems openWorld)
   \<and> 0 < int (length (groupStat (st (fSt openWorld))))
   \<and> 0 < int (length (assignedTable (fSt openWorld)))
   \<and> nothingToDo sampleConst openWorld
   \<and> MAXGROUPS sampleConst \<le> length (groupStat (st (fSt openWorld)))
   \<and> emitted (waitFood sampleConst 0) openWorld =
       [Down Mutex, Wr (GroupStat 0), SaveState, Up Mutex, Rd (AssignedTable 0)]
   \<and> emitted (takeFoodToTable sampleConst 0) openWorld =
       [Down Mutex, Wr WaiterStat, SaveState, Up Mutex, Rd (AssignedTable 0)]
   \<and> emitted (waitForClientOrChef sampleConst 1) openWorld =
       [Down Mutex, Rd (GroupStat 0), Rd (GroupStat 1), Rd (GroupStat 2), Rd (GroupStat 3),
        Rd ChefStat, Up Mutex, Wr WaiterStat]
   \<and> \<not> guarded False (emitted (waitFood sampleConst 0) openWorld)
   \<and> \<not> guarded False (emitted (takeFoodToTable sampleConst 0) openWorld)
   \<and> \<not> guarded False (emitted (waitForClientOrChef sampleConst (Suc 0)) openWorld)"
  using shared_access_outside_the_mutex [where c = sampleConst and w = openWorld and g = 0 and fuel = 0]
  by (simp add: waitFood_def takeFoodToTable_def waitForClientOrChef_def waiterPoll_def
      openWorld_def nothingToDo_def emitted_def run_defs)

section \<open>The counter of waiting groups\<close>

lemma groupsWaiting_kept:
  "keeps (\<lambda>w. groupsWaiting (fSt w)) (goToRestaurant g)"
  "keeps (\<lambda>w. groupsWaiting (fSt w)) (orderFood c g)"
  "keeps (\<lambda>w. groupsWaiting (fSt w)) (waitFood c g)"
  "keeps (\<lambda>w. groupsWaiting (fSt w)) (eat g)"
  "keeps (\<lambda>w. groupsWaiting (fSt w)) (checkOutAtReception c g)"
  "keeps (\<lambda>w. groupsWaiting (fSt w)) waitForGroup"
  "keeps (\<lambda>w. groupsWaiting (fSt w)) (provideTableOrWaitingRoom c g)"
  "keeps (\<lambda>w. groupsWaiting (fSt w)) (receivePayment c g)"
  "keeps (\<lambda>w. groupsWaiting (fSt w)) (waitForClientOrChef c fuel)"
  "keeps (\<lambda>w. groupsWaiting (fSt w)) (informChef c g)"
  "keeps (\<lambda>w. groupsWaiting (fSt w)) (takeFoodToTable c g)"
  unfolding goToRestaurant_def orderFood_def waitFood_def eat_def checkOutAtReception_def
    waitForGroup_def provideTableOrWaitingRoom_def decideTableOrWait_def receivePayment_def
    decideNextGroup_def waitForClientOrChef_def informChef_def takeFoodToTable_def
  by (intro keeps_intros keeps_waitLoop; auto split: option.splits)+

lemma checkIn_increment:
  assumes "0 < mutex (sems w)"
  shows "checkInAtReception c g w =
     thn (seq [wr ReceptionistRequestType (TABLEREQ c),
               wr ReceptionistRequestGroup g,
               wr (GroupStat g) (ATRECEPTION c),
               saveState])
       (bnd (takeVacant g (NUMTABLES c) 0) (\<lambda>isTableAvailable.
          seq [if isTableAvailable then wr (GroupStat g) AT_TABLE
               else wr (GroupStat g) WAITING,
               saveState,
               semUp Mutex]))
       (w\<lparr>sems := (sems w)\<lparr>mutex := mutex (sems w) - 1\<rparr>,
          fSt := (fSt w)\<lparr>groupsWaiting := groupsWaiting (fSt w) + 1\<rparr>,
          trace := trace w @ [Down Mutex, Rd GroupsWaiting, Rd GroupsWaiting, Wr GroupsWaiting]\<rparr>)"
  using assms
  by (simp add: checkInAtReception_def rd_def wr_def semDown_def [of Mutex] thn_def bnd_ret bnd_assoc
      bnd_def [of "semDown Mutex"] bnd_def [of "rd GroupsWaiting"] bnd_def [of "wr GroupsWaiting _"])

lemma checkIn_groupsWaiting:
  "groupsWaiting (fSt (state_of (checkInAtReception c g w)))
     = groupsWaiting (fSt w) + (if 0 < mutex (sems w) then 1 else 0)"
proof (cases "0 < mutex (sems w)")
  case True
  let ?rest = "thn (seq [wr ReceptionistRequestType (TABLEREQ c),
               wr ReceptionistRequestGroup g,
               wr (GroupStat g) (ATRECEPTION c),
               saveState])
       (bnd (takeVacant g (NUMTABLES c) 0) (\<lambda>isTableAvailable.
          seq [if isTableAvailable then wr (GroupStat g) AT_TABLE
               else wr (GroupStat g) WAITING,
               saveState,
               semUp Mutex]))"
  have "keeps (\<lambda>w. groupsWaiting (fSt w)) ?rest"
    by (intro keeps_intros keeps_takeVacant; auto split: option.splits)
  from keepsD [OF this] checkIn_increment [OF True, of c g] True show ?thesis
    by simp
next
  case False
  then have "checkInAtReception c g w = Blocked Mutex w"
    by (simp add: checkInAtReception_def thn_def bnd_def semDown_def)
  with False show ?thesis by simp
qed

lemma state_of_forget: "state_of (forget r) = state_of r"
  by (cases r) simp_all

lemma after_run: "after c op w = state_of (run c op w)"
  by (cases op) (simp_all add: state_of_forget)

lemma checkIn_seated_and_counted:
  assumes "0 < mutex (sems w)"
    and "0 \<le> g" and "g < int (length (groupStat (st (fSt w))))"
    and "NUMTABLES c \<le> length (assignedTable (fSt w))"
    and "vacantTable c w"
  shows "\<exists>w'. checkInAtReception c g w = Returns () w'
     \<and> groupStat (st (fSt w')) ! nat g = AT_TABLE
     \<and> groupsWaiting (fSt w') = groupsWaiting (fSt w) + 1"
proof -
  from checkIn_Returns [OF assms(1-4)] assms(5) obtain w' where
    r: "checkInAtReception c g w = Returns () w'" and
    s: "groupStat (st (fSt w')) = (groupStat (st (fSt w)))[nat g := AT_TABLE]"
    by auto
  from checkIn_groupsWaiting [of c g w] r assms(1) have
    "groupsWaiting (fSt w') = groupsWaiting (fSt w) + 1"
    by simp
  moreover from s assms(2,3) have "groupStat (st (fSt w')) ! nat g = AT_TABLE"
    by simp
  ultimately show ?thesis using r by blast
qed

text \<open>
  Claim C9.  The claim says that \<^verbatim>\<open>groupsWaiting\<close> equals the number of groups that
  have checked in and are not yet seated: incremented when a group checks in,
  decremented when a group is seated.  The code has the increment only.  A group whose
  check-in finds a vacant table is seated by that very call and is counted all the same
  (the increment is taken inside the range of a 32-bit \<^verbatim>\<open>int\<close>), and no other operation
  of a group, of the receptionist or of the waiter changes the counter, as long as it
  stays inside its arrays.
\<close>

theorem groupsWaiting_only_incremented:
  "(0 < mutex (sems w) \<and> 0 \<le> g \<and> g < int (length (groupStat (st (fSt w))))
      \<and> NUMTABLES c \<le> length (assignedTable (fSt w)) \<and> vacantTable c w
      \<and> groupsWaiting (fSt w) < 2147483647
    \<longrightarrow> (\<exists>w'. checkInAtReception c g w = Returns () w'
           \<and> groupStat (st (fSt w')) ! nat g = AT_TABLE
           \<and> groupsWaiting (fSt w') = groupsWaiting (fSt w) + 1))
   \<and> ((\<forall>h. op \<noteq> CheckInAtReception h) \<and> \<not> strays (run c op w)
    \<longrightarrow> groupsWaiting (fSt (after c op w)) = groupsWaiting (fSt w))"
proof -
  have "groupsWaiting (fSt (after c op w)) = groupsWaiting (fSt w)"
    if "\<forall>h. op \<noteq> CheckInAtReception h"
    using that by (cases op) (simp_all add: groupsWaiting_kept [THEN keepsD])
  then show ?thesis
    using checkIn_seated_and_counted [of w g c] by blast
qed

theorem groupsWaiting_only_incremented_witness:
  "groupsWaiting (fSt openWorld) = 0 \<and> notYetSeated sampleConst openWorld = 0
   \<and> groupsWaiting (fSt seatedWorld) = 1 \<and> notYetSeated sampleConst seatedWorld = 0
   \<and> 0 < mutex (sems seatedWorld) \<and> 1 < int (length (groupStat (st (fSt seatedWorld))))
   \<and> NUMTABLES sampleConst \<le> length (assignedTable (fSt seatedWorld))
   \<and> vacantTable sampleConst seatedWorld
   \<and> groupsWaiting (fSt seatedWorld) < 2147483647
   \<and> (\<exists>w'. checkInAtReception sampleConst 1 seatedWorld = Returns () w'
        \<and> groupStat (st (fSt w')) = [AT_TABLE, AT_TABLE, 0, 0]
        \<and> groupsWaiting (fSt w') = 2 \<and> notYetSeated sampleConst w' = 0)
   \<and> \<not> strays (run sampleConst (ProvideTableOrWaitingRoom 0) seatedWorld)
   \<and> groupsWaiting (fSt (after sampleConst (ProvideTableOrWaitingRoom 0) seatedWorld)) = 1"
  using groupsWaiting_only_incremented [where c = sampleConst and w = seatedWorld and g = 1
      and op = "ProvideTableOrWaitingRoom 0"]
  by (simp add: seatedWorld_def checkInAtReception_def provideTableOrWaitingRoom_def
      decideTableOrWait_def openWorld_def notYetSeated_def vacantTable_def run_defs)

section \<open>Tables and the groups that sit at them\<close>

lemma tableInv_iff:
  "tableInv c w \<longleftrightarrow>
     (\<forall>j < length (groupStat (st (fSt w))).
        groupStat (st (fSt w)) ! j \<in> set (atTableStates c) \<longrightarrow> tablesOf c w (int j) = 1)"
  by (auto simp: tableInv_def list_all_iff)

lemma orderFood_Returns:
  assumes "0 < mutex (sems w)" and "0 \<le> g" and "g < int (length (groupStat (st (fSt w))))"
  shows "\<exists>w'. orderFood c g w = Returns () w'
     \<and> groupStat (st (fSt w')) = (groupStat (st (fSt w)))[nat g := FOOD_REQUEST c]
     \<and> assignedTable (fSt w') = assignedTable (fSt w)
     \<and> sems w' = sems w"
  using assms
  by (simp add: orderFood_def prim_defs thn_def bnd_def ret_def upd_def)

text \<open>
  The payment leaves a group without its table: \<^verbatim>\<open>receivePayment\<close> unbinds the table
  while the status of the group that pays is \<^verbatim>\<open>CHECKOUT\<close>.  The group leaves that
  status only after the acknowledgement of the payment, and \<^verbatim>\<open>receivePayment\<close> never
  sends one.
\<close>

lemma payment_unbinds_before_departure:
  "tableInv sampleConst payWorld
   \<and> \<not> tableInv sampleConst (after sampleConst (ReceivePayment 0) payWorld)"
  by (simp add: tableInv_def tablesOf_def atTableStates_def receivePayment_def decideNextGroup_def
      payWorld_def run_defs)

text \<open>
  Claim C4.  The claim says that every operation preserves the invariant of the tables:
  a table is bound to at most one group, and every group whose status is seated,
  ordering, awaiting food, eating or checking out is bound to exactly one table.  The
  first half holds by the representation: an entry of \<^verbatim>\<open>assignedTable\<close> is one
  integer, \<open>- 1\<close> or a group.  The code breaks the second half in the life cycle of a
  group: when no table is vacant, \<^verbatim>\<open>checkInAtReception\<close> returns without waiting, with
  status \<^verbatim>\<open>WAITING\<close> and no table, and \<^verbatim>\<open>orderFood\<close>, which the group calls next,
  sets its status to \<^verbatim>\<open>FOOD_REQUEST\<close>.  The invariant holds before that call of
  \<^verbatim>\<open>orderFood\<close> and not after it.
\<close>

theorem order_without_table:
  assumes "tableInv c w" and "WAITING \<notin> set (atTableStates c)"
    and "0 < mutex (sems w)"
    and "0 \<le> g" and "g < int (length (groupStat (st (fSt w))))"
    and "NUMTABLES c \<le> length (assignedTable (fSt w))"
    and "\<not> vacantTable c w" and "tablesOf c w g = 0"
  shows "\<exists>w1 w2. checkInAtReception c g w = Returns () w1 \<and> tableInv c w1
     \<and> orderFood c g w1 = Returns () w2
     \<and> groupStat (st (fSt w2)) ! nat g = FOOD_REQUEST c
     \<and> tablesOf c w2 g = 0
     \<and> \<not> tableInv c w2"
proof -
  from checkIn_Returns [OF assms(3-6)] assms(7) obtain w1 where
    r1: "checkInAtReception c g w = Returns () w1" and
    s1: "sems w1 = sems w" "assignedTable (fSt w1) = assignedTable (fSt w)"
      "groupStat (st (fSt w1)) = (groupStat (st (fSt w)))[nat g := WAITING]"
    by auto
  have inv1: "tableInv c w1"
    unfolding tableInv_iff
  proof (intro allI impI)
    fix j
    assume j: "j < length (groupStat (st (fSt w1)))"
      and at: "groupStat (st (fSt w1)) ! j \<in> set (atTableStates c)"
    from j s1 at assms(2) have "j \<noteq> nat g" by auto
    with s1 at have "groupStat (st (fSt w)) ! j \<in> set (atTableStates c)" by simp
    with assms(1) j s1 show "tablesOf c w1 (int j) = 1"
      by (simp add: tableInv_iff tablesOf_def)
  qed
  from s1 assms(3,5) have "0 < mutex (sems w1)" "g < int (length (groupStat (st (fSt w1))))"
    by simp_all
  from orderFood_Returns [OF this(1) assms(4) this(2), of c] obtain w2 where
    r2: "orderFood c g w1 = Returns () w2" and
    s2: "groupStat (st (fSt w2)) = (groupStat (st (fSt w1)))[nat g := FOOD_REQUEST c]"
      "assignedTable (fSt w2) = assignedTable (fSt w1)"
    by blast
  from s1 s2 assms(4,5) have len: "nat g < length (groupStat (st (fSt w2)))"
    and st: "groupStat (st (fSt w2)) ! nat g = FOOD_REQUEST c"
    by simp_all
  from s1 s2 assms(8) have none: "tablesOf c w2 g = 0"
    by (simp add: tablesOf_def)
  have "\<not> tableInv c w2"
  proof
    assume inv2: "tableInv c w2"
    from st have "groupStat (st (fSt w2)) ! nat g \<in> set (atTableStates c)"
      by (simp add: atTableStates_def)
    with inv2 [unfolded tableInv_iff, rule_format, of "nat g"] len
    have "tablesOf c w2 (int (nat g)) = 1" by blast
    with none assms(4) show False by simp
  qed
  with r1 inv1 r2 st none show ?thesis by blast
qed

theorem order_without_table_witness:
  "tableInv sampleConst twoSeated \<and> WAITING \<notin> set (atTableStates sampleConst)
   \<and> 0 < mutex (sems twoSeated)
   \<and> 2 < int (length (groupStat (st (fSt twoSeated))))
   \<and> NUMTABLES sampleConst \<le> length (assignedTable (fSt twoSeated))
   \<and> \<not> vacantTable sampleConst twoSeated \<and> tablesOf sampleConst twoSeated 2 = 0
   \<and> (\<exists>w1 w2. checkInAtReception sampleConst 2 twoSeated = Returns () w1
         \<and> groupStat (st (fSt w1)) = [AT_TABLE, AT_TABLE, WAITING, 0]
         \<and> tableInv sampleConst w1
         \<and> orderFood sampleConst 2 w1 = Returns () w2
         \<and> groupStat (st (fSt w2)) = [AT_TABLE, AT_TABLE, FOOD_REQUEST sampleConst, 0]
         \<and> assignedTable (fSt w2) = [0, 1, - 1, - 1]
         \<and> \<not> tableInv sampleConst w2)"
  using order_without_table [where c = sampleConst and w = twoSeated and g = 2]
  by (simp add: twoSeated_def seatedWorld_def checkInAtReception_def orderFood_def openWorld_def
      tableInv_def tablesOf_def atTableStates_def vacantTable_def run_defs)

end
